theory Spec2Isabelle
  imports Main
begin

chapter \<open>Copy-on-write strings and the fixed-block allocator of the GotW 45 test harness\<close>

text \<open>
  A shallow embedding of \<^verbatim>\<open>test.h\<close> (FastArena, the atomic integer helpers),
  \<^verbatim>\<open>common-test.h\<close> (StringBuf and the String code shared by the namespaces
  COW_Unsafe, COW_AtomicInt, COW_CritSec and COW_Mutex) and \<^verbatim>\<open>test.cpp\<close> (the
  namespaces Plain, Plain_FastAlloc, StdString, AtlString, the four namespaces above and
  COW_AtomicInt2: nine String classes in all).

  Conventions of the embedding.
  \<^item> Executions are sequential: one thread runs one public operation at a time.
    \<^verbatim>\<open>InterlockedIncrement\<close> and its relatives therefore are plain arithmetic, and
    constructing a \<^verbatim>\<open>Lock<T>\<close> and calling \<^verbatim>\<open>Unlock\<close> change nothing.
  \<^item> \<^verbatim>\<open>size_t\<close> is \<open>nat\<close>, \<^verbatim>\<open>long\<close> and \<^verbatim>\<open>int\<close> are \<open>int\<close>: lengths are bounded
    by the memory a process can address and counters by the number of operations run, so
    no computation below reaches a wrap-around, and every \<^verbatim>\<open>size_t\<close> that occurs converts
    to \<^verbatim>\<open>double\<close> exactly.
  \<^item> A pointer is an address, a \<open>nat\<close>; the null pointer is \<open>0\<close>.
  \<^item> A \<^verbatim>\<open>char\<close> array is a list of cells, \<open>None\<close> for a cell never written since
    \<^verbatim>\<open>new char[n]\<close> returned it (its value is indeterminate).
  \<^item> \<^verbatim>\<open>new char[n]\<close> on the general heap always succeeds; the only allocation that can
    fail is the one the source makes fail itself, \<^verbatim>\<open>FastArena::Allocate\<close>.
  \<^item> A throw of \<^verbatim>\<open>bad_alloc\<close> is the result \<open>Inl bad_alloc\<close>, and \<open>Inl invalid_arg\<close> is
    the exception ATL raises with \<^verbatim>\<open>AtlThrow(E_INVALIDARG)\<close>. The result
    \<open>Inl invalid_pointer\<close> marks an execution in which the source reads or writes through a
    pointer that designates no live object or cell: C++ gives such an execution no meaning,
    and the source neither checks for it nor signals it.
\<close>

section \<open>Shared values\<close>

datatype fault = bad_alloc | invalid_pointer | invalid_arg

definition seq :: "fault + 'a \<Rightarrow> ('a \<Rightarrow> fault + 'b) \<Rightarrow> fault + 'b" where
  "seq r f = (case r of Inl e \<Rightarrow> Inl e | Inr x \<Rightarrow> f x)"

type_synonym cells = "char option list"

text \<open>What reading \<^verbatim>\<open>*(buf + n)\<close> yields.\<close>

datatype rdval = Chr char | Indeterminate | Wild

definition peek :: "cells option \<Rightarrow> nat \<Rightarrow> rdval" where
  "peek b n =
     (case b of
        None \<Rightarrow> Wild
      | Some cs \<Rightarrow>
          if n < length cs
          then (case cs ! n of None \<Rightarrow> Indeterminate | Some c \<Rightarrow> Chr c)
          else Wild)"

definition new_char_array :: "nat \<Rightarrow> cells" where
  "new_char_array n = replicate n None"

text \<open>
  \<^verbatim>\<open>memcpy(dst, src, k)\<close> on two arrays: the first \<open>k\<close> cells of \<open>dst\<close> become those of
  \<open>src\<close>. Every call of the source has \<open>k\<close> within both arrays whenever
  \<open>used \<le> len\<close> holds of the buffers involved.
\<close>

definition memcpy_cells :: "cells \<Rightarrow> cells \<Rightarrow> nat \<Rightarrow> cells" where
  "memcpy_cells dst src k = take k src @ drop k dst"

definition memcpy :: "cells option \<Rightarrow> cells option \<Rightarrow> nat \<Rightarrow> cells option" where
  "memcpy dst src k =
     (case dst of
        None \<Rightarrow> None
      | Some d \<Rightarrow> (case src of None \<Rightarrow> Some d | Some s \<Rightarrow> Some (memcpy_cells d s k)))"

text \<open>
  The growth policy written three times in the source (StringBuf::Reserve,
  Plain::String::Reserve and its FastArena twin, COW_AtomicInt2::String::Clone):
  \<^verbatim>\<open>needed = static_cast<size_t>(max(len*1.5, static_cast<double>(n)))\<close> and
  \<^verbatim>\<open>newlen = needed ? 4 * ((needed-1)/4 + 1) : 0\<close>. The conversion to \<^verbatim>\<open>size_t\<close>
  truncates, and \<open>n\<close> is whole, so \<open>needed\<close> is the larger of \<open>n\<close> and
  \<open>3 * len div 2\<close>.
\<close>

definition needed_size :: "nat \<Rightarrow> nat \<Rightarrow> nat" where
  "needed_size l n = max (3 * l div 2) n"

definition round_len :: "nat \<Rightarrow> nat" where
  "round_len needed = (if needed \<noteq> 0 then 4 * ((needed - 1) div 4 + 1) else 0)"

subsection \<open>Atomic integer helpers (test.h)\<close>

text \<open>Each takes the value stored at the address; the last two return the value they store.\<close>

definition IntAtomicCompare :: "int \<Rightarrow> int \<Rightarrow> int" where
  "IntAtomicCompare ii v = (if ii < v then - 1 else if ii = v then 0 else 1)"

definition IntAtomicIncrement :: "int \<Rightarrow> int" where
  "IntAtomicIncrement i = i + 1"

definition IntAtomicDecrement :: "int \<Rightarrow> int" where
  "IntAtomicDecrement i = i - 1"

section \<open>FastArena (test.h)\<close>

text \<open>
  The arena is one array of \<open>FastArena_size\<close> blocks; a block is a \<^verbatim>\<open>long\<close> marker
  followed by \<open>n_fa\<close> payload bytes. \<open>hdr A i\<close> is the marker of block \<open>i\<close>, the only part
  of the arena that Allocate and Deallocate read or write. \<^verbatim>\<open>FA_THREAD_SAFE\<close> is defined,
  \<^verbatim>\<open>FA_REPORT\<close> and \<^verbatim>\<open>FA_DEBUG\<close> are not. The field names \<^verbatim>\<open>n_\<close> and \<^verbatim>\<open>buf_\<close> of the
  source are \<open>n_fa\<close> and \<open>buf_fa\<close> here.
\<close>

definition sizeof_long :: nat where
  "sizeof_long = 4"

definition FastArena_size :: nat where
  "FastArena_size = 100"

record FastArena =
  n_fa :: nat
  buf_fa :: nat
  hdr :: "nat \<Rightarrow> int"

text \<open>The constructor; \<open>base\<close> is the address \<^verbatim>\<open>new char[...]\<close> returned for the arena.\<close>

definition FastArena_ctor :: "nat \<Rightarrow> nat \<Rightarrow> FastArena" where
  "FastArena_ctor base n =
     \<lparr> n_fa = (if n \<noteq> 0 then 4 * ((n - 1) div 4 + 1) else 4),
       buf_fa = base,
       hdr = (\<lambda>i. 0) \<rparr>"

definition stride :: "FastArena \<Rightarrow> nat" where
  "stride A = n_fa A + sizeof_long"

text \<open>
  The search loop of Allocate, \<^verbatim>\<open>while (p < end && *(long*)p != 0) p += stride\<close>, on block
  numbers: \<open>scan h i\<close> is the block at which the loop that starts at block \<open>i\<close> stops,
  \<open>FastArena_size\<close> when it runs off the end.
\<close>

function scan :: "(nat \<Rightarrow> int) \<Rightarrow> nat \<Rightarrow> nat" where
  "scan h i = (if i < FastArena_size \<and> h i \<noteq> 0 then scan h (Suc i) else i)"
  by pat_completeness auto
termination
  by (relation "measure (\<lambda>(h, i). FastArena_size - i)") auto

declare scan.simps [simp del]

definition payload_addr :: "FastArena \<Rightarrow> nat \<Rightarrow> nat" where
  "payload_addr A i = buf_fa A + i * stride A + sizeof_long"

text \<open>The block whose payload starts at \<open>p\<close>, if there is one.\<close>

definition block_index :: "FastArena \<Rightarrow> nat \<Rightarrow> nat option" where
  "block_index A p =
     (if buf_fa A + sizeof_long \<le> p
         \<and> (p - sizeof_long - buf_fa A) mod stride A = 0
         \<and> (p - sizeof_long - buf_fa A) div stride A < FastArena_size
      then Some ((p - sizeof_long - buf_fa A) div stride A)
      else None)"

definition Allocate :: "FastArena \<Rightarrow> nat \<Rightarrow> fault + (nat \<times> FastArena)" where
  "Allocate A n =
     (if n > n_fa A then Inl bad_alloc
      else let i = scan (hdr A) 0 in
        if i \<ge> FastArena_size then Inl bad_alloc
        else Inr (payload_addr A i,
                  A\<lparr> hdr := (hdr A)(i := IntAtomicIncrement (hdr A i)) \<rparr>))"

text \<open>
  Deallocate decrements the \<^verbatim>\<open>long\<close> that ends at \<open>p\<close>. When \<open>p\<close> is inside the range the
  source accepts but is no block's payload address, that \<^verbatim>\<open>long\<close> is no marker.
\<close>

definition Deallocate :: "FastArena \<Rightarrow> nat \<Rightarrow> fault + FastArena" where
  "Deallocate A p =
     (if p = 0 then Inr A
      else if p < buf_fa A \<or> p > buf_fa A + stride A * FastArena_size then Inl bad_alloc
      else case block_index A p of
             Some i \<Rightarrow> Inr (A\<lparr> hdr := (hdr A)(i := IntAtomicDecrement (hdr A i)) \<rparr>)
           | None \<Rightarrow> Inl invalid_pointer)"

text \<open>A block is free when its marker is \<open>0\<close>: that is what Allocate's search tests.\<close>

definition block_free :: "FastArena \<Rightarrow> nat \<Rightarrow> bool" where
  "block_free A i = (hdr A i = 0)"

definition allocated :: "FastArena \<Rightarrow> nat \<Rightarrow> bool" where
  "allocated A p = (case block_index A p of Some i \<Rightarrow> \<not> block_free A i | None \<Rightarrow> False)"

section \<open>StringBuf (common-test.h)\<close>

record StringBuf =
  buf :: "cells option"
  len :: nat
  used :: nat
  refs :: int

text \<open>The member initialisers \<^verbatim>\<open>buf(0), len(0), used(0), refs(1)\<close> of both constructors.\<close>

definition StringBuf_ctor :: StringBuf where
  "StringBuf_ctor = \<lparr> buf = None, len = 0, used = 0, refs = 1 \<rparr>"

text \<open>
  Reserve takes and returns the static counter \<^verbatim>\<open>String::nAllocs\<close>, which it increments
  when it allocates.
\<close>

definition Reserve :: "StringBuf \<Rightarrow> nat \<Rightarrow> int \<Rightarrow> StringBuf \<times> int" where
  "Reserve sb n nA =
     (if len sb < n then
        let needed = needed_size (len sb) n;
            newlen = round_len needed;
            nA' = (if newlen \<noteq> 0 then nA + 1 else nA);
            newbuf = (if newlen \<noteq> 0 then Some (new_char_array newlen) else None);
            newbuf' = (if buf sb \<noteq> None then memcpy newbuf (buf sb) (used sb) else newbuf)
        in (sb\<lparr> buf := newbuf', len := newlen \<rparr>, nA')
      else (sb, nA))"

text \<open>
  The cloning constructor \<^verbatim>\<open>StringBuf(const StringBuf& other, size_t n)\<close>. Its
  \<^verbatim>\<open>memcpy(buf, other.buf, used)\<close> names the member \<^verbatim>\<open>used\<close> of the object under
  construction, before \<^verbatim>\<open>used = other.used\<close> has run.
\<close>

definition StringBuf_clone :: "StringBuf \<Rightarrow> nat \<Rightarrow> int \<Rightarrow> StringBuf \<times> int" where
  "StringBuf_clone other n nA =
     (let (this, nA') = Reserve StringBuf_ctor (max (len other) n) nA;
          this' = this\<lparr> buf := memcpy (buf this) (buf other) (used this) \<rparr>
      in (this'\<lparr> used := used other \<rparr>, nA'))"

definition StringBuf_Clear :: "StringBuf \<Rightarrow> StringBuf" where
  "StringBuf_Clear sb = sb\<lparr> buf := None, len := 0, used := 0 \<rparr>"

section \<open>The String of common-test.h in its four namespaces\<close>

text \<open>
  The state of one namespace: the static arena \<^verbatim>\<open>fa\<close> that backs
  \<^verbatim>\<open>StringBuf::operator new\<close>, the StringBuf objects constructed in it (by address), and the
  static counters. \<open>sizeof_StringBuf\<close> is the number the compiler passes to
  \<^verbatim>\<open>operator new\<close>; it depends on the platform and on \<^verbatim>\<open>BAGGAGE\<close>, and is the size
  the arena was constructed for. A String is its member \<^verbatim>\<open>data_\<close>, an address.
\<close>

record cow =
  fa :: FastArena
  heap :: "nat \<Rightarrow> StringBuf option"
  nCopies :: int
  nAllocs :: int
  sizeof_StringBuf :: nat

definition cow_init :: "nat \<Rightarrow> nat \<Rightarrow> cow" where
  "cow_init base sz =
     \<lparr> fa = FastArena_ctor base sz, heap = (\<lambda>p. None), nCopies = 0, nAllocs = 0,
       sizeof_StringBuf = sz \<rparr>"

text \<open>\<^verbatim>\<open>new StringBuf\<close>: operator new, then the default constructor.\<close>

definition new_StringBuf :: "cow \<Rightarrow> fault + (nat \<times> cow)" where
  "new_StringBuf st =
     (case Allocate (fa st) (sizeof_StringBuf st) of
        Inl e \<Rightarrow> Inl e
      | Inr (p, A) \<Rightarrow> Inr (p, st\<lparr> fa := A, heap := (heap st)(p \<mapsto> StringBuf_ctor) \<rparr>))"

text \<open>\<^verbatim>\<open>new StringBuf(other, n)\<close>: operator new, then the cloning constructor.\<close>

definition new_StringBuf_clone :: "cow \<Rightarrow> StringBuf \<Rightarrow> nat \<Rightarrow> fault + (nat \<times> cow)" where
  "new_StringBuf_clone st other n =
     (case Allocate (fa st) (sizeof_StringBuf st) of
        Inl e \<Rightarrow> Inl e
      | Inr (p, A) \<Rightarrow>
          (let (sb, nA) = StringBuf_clone other n (nAllocs st)
           in Inr (p, st\<lparr> fa := A, heap := (heap st)(p \<mapsto> sb), nAllocs := nA \<rparr>)))"

text \<open>\<^verbatim>\<open>delete p\<close>: the destructor (\<^verbatim>\<open>delete[] buf\<close>), then operator delete.\<close>

definition delete_StringBuf :: "cow \<Rightarrow> nat \<Rightarrow> fault + cow" where
  "delete_StringBuf st p =
     (if p = 0 then Inr st
      else case heap st p of
        None \<Rightarrow> Inl invalid_pointer
      | Some sb \<Rightarrow>
          (case Deallocate (fa st) p of
             Inl e \<Rightarrow> Inl e
           | Inr A \<Rightarrow> Inr (st\<lparr> fa := A, heap := (heap st)(p := None) \<rparr>)))"

subsection \<open>COW_Unsafe, and COW_CritSec and COW_Mutex run by one thread\<close>

text \<open>
  The members of COW_CritSec and COW_Mutex are those of COW_Unsafe with a \<^verbatim>\<open>Lock\<close>
  taken on entry and released before any allocation; run by one thread they are the same
  transitions.
\<close>

definition rc_dtor :: "cow \<Rightarrow> nat \<Rightarrow> fault + cow" where
  "rc_dtor st s =
     (case heap st s of
        None \<Rightarrow> Inl invalid_pointer
      | Some sb \<Rightarrow>
          (let r = refs sb - 1;
               st1 = st\<lparr> heap := (heap st)(s \<mapsto> sb\<lparr> refs := r \<rparr>) \<rparr>
           in if r < 1 then delete_StringBuf st1 s else Inr st1))"

definition rc_copy :: "cow \<Rightarrow> nat \<Rightarrow> fault + (nat \<times> cow)" where
  "rc_copy st other =
     (case heap st other of
        None \<Rightarrow> Inl invalid_pointer
      | Some sb \<Rightarrow>
          seq (if refs sb > 0
               then Inr (other, st\<lparr> heap := (heap st)(other \<mapsto> sb\<lparr> refs := refs sb + 1 \<rparr>) \<rparr>)
               else new_StringBuf_clone st sb 0)
              (\<lambda>(d, st1). Inr (d, st1\<lparr> nCopies := nCopies st1 + 1 \<rparr>)))"

definition rc_Clear :: "cow \<Rightarrow> nat \<Rightarrow> fault + (nat \<times> cow)" where
  "rc_Clear st s =
     (case heap st s of
        None \<Rightarrow> Inl invalid_pointer
      | Some sb \<Rightarrow>
          if refs sb > 1
          then new_StringBuf (st\<lparr> heap := (heap st)(s \<mapsto> sb\<lparr> refs := refs sb - 1 \<rparr>) \<rparr>)
          else Inr (s, st\<lparr> heap := (heap st)(s \<mapsto> (StringBuf_Clear sb)\<lparr> refs := 1 \<rparr>) \<rparr>))"

definition rc_EnsureUnique :: "cow \<Rightarrow> nat \<Rightarrow> nat \<Rightarrow> fault + (nat \<times> cow)" where
  "rc_EnsureUnique st s n =
     (case heap st s of
        None \<Rightarrow> Inl invalid_pointer
      | Some sb \<Rightarrow>
          if refs sb > 1
          then seq (new_StringBuf_clone st sb n)
                 (\<lambda>(newdata, st1).
                    case heap st1 s of
                      None \<Rightarrow> Inl invalid_pointer
                    | Some sb1 \<Rightarrow>
                        Inr (newdata,
                             st1\<lparr> heap := (heap st1)(s \<mapsto> sb1\<lparr> refs := refs sb1 - 1 \<rparr>) \<rparr>))
          else (let (sb', nA) = Reserve sb n (nAllocs st)
                in Inr (s, st\<lparr> heap := (heap st)(s \<mapsto> sb'\<lparr> refs := 1 \<rparr>), nAllocs := nA \<rparr>)))"

subsection \<open>COW_AtomicInt\<close>

definition at_dtor :: "cow \<Rightarrow> nat \<Rightarrow> fault + cow" where
  "at_dtor st s =
     (case heap st s of
        None \<Rightarrow> Inl invalid_pointer
      | Some sb \<Rightarrow>
          (let r = IntAtomicDecrement (refs sb);
               st1 = st\<lparr> heap := (heap st)(s \<mapsto> sb\<lparr> refs := r \<rparr>) \<rparr>
           in if r < 1 then delete_StringBuf st1 s else Inr st1))"

definition at_copy :: "cow \<Rightarrow> nat \<Rightarrow> fault + (nat \<times> cow)" where
  "at_copy st other =
     (case heap st other of
        None \<Rightarrow> Inl invalid_pointer
      | Some sb \<Rightarrow>
          seq (if IntAtomicCompare (refs sb) 0 > 0
               then Inr (other,
                         st\<lparr> heap := (heap st)(other \<mapsto> sb\<lparr> refs := IntAtomicIncrement (refs sb) \<rparr>) \<rparr>)
               else new_StringBuf_clone st sb 0)
              (\<lambda>(d, st1). Inr (d, st1\<lparr> nCopies := nCopies st1 + 1 \<rparr>)))"

definition at_Clear :: "cow \<Rightarrow> nat \<Rightarrow> fault + (nat \<times> cow)" where
  "at_Clear st s =
     (case heap st s of
        None \<Rightarrow> Inl invalid_pointer
      | Some sb \<Rightarrow>
          (let r = IntAtomicDecrement (refs sb);
               sb1 = sb\<lparr> refs := r \<rparr>
           in if r < 1
              then Inr (s, st\<lparr> heap := (heap st)(s \<mapsto> (StringBuf_Clear sb1)\<lparr> refs := 1 \<rparr>) \<rparr>)
              else new_StringBuf (st\<lparr> heap := (heap st)(s \<mapsto> sb1) \<rparr>)))"

definition at_EnsureUnique :: "cow \<Rightarrow> nat \<Rightarrow> nat \<Rightarrow> fault + (nat \<times> cow)" where
  "at_EnsureUnique st s n =
     (case heap st s of
        None \<Rightarrow> Inl invalid_pointer
      | Some sb \<Rightarrow>
          if IntAtomicCompare (refs sb) 1 > 0
          then seq (new_StringBuf_clone st sb n)
                 (\<lambda>(newdata, st1).
                    case heap st1 s of
                      None \<Rightarrow> Inl invalid_pointer
                    | Some sb1 \<Rightarrow>
                        (let r = IntAtomicDecrement (refs sb1);
                             st2 = st1\<lparr> heap := (heap st1)(s \<mapsto> sb1\<lparr> refs := r \<rparr>) \<rparr>
                         in if r < 1
                            then seq (delete_StringBuf st2 newdata)
                                   (\<lambda>st3. case heap st3 s of
                                             None \<Rightarrow> Inl invalid_pointer
                                           | Some sb3 \<Rightarrow>
                                               Inr (s, st3\<lparr> heap := (heap st3)(s \<mapsto> sb3\<lparr> refs := 1 \<rparr>) \<rparr>))
                            else Inr (newdata, st2)))
          else (let (sb', nA) = Reserve sb n (nAllocs st)
                in Inr (s, st\<lparr> heap := (heap st)(s \<mapsto> sb'\<lparr> refs := 1 \<rparr>), nAllocs := nA \<rparr>)))"

subsection \<open>The members every namespace shares\<close>

datatype cow_variant = COW_Unsafe | COW_AtomicInt | COW_CritSec | COW_Mutex

definition String_ctor :: "cow \<Rightarrow> fault + (nat \<times> cow)" where
  "String_ctor st = new_StringBuf st"

definition String_dtor :: "cow_variant \<Rightarrow> cow \<Rightarrow> nat \<Rightarrow> fault + cow" where
  "String_dtor v = (case v of COW_AtomicInt \<Rightarrow> at_dtor | _ \<Rightarrow> rc_dtor)"

definition String_copy :: "cow_variant \<Rightarrow> cow \<Rightarrow> nat \<Rightarrow> fault + (nat \<times> cow)" where
  "String_copy v = (case v of COW_AtomicInt \<Rightarrow> at_copy | _ \<Rightarrow> rc_copy)"

definition String_Clear :: "cow_variant \<Rightarrow> cow \<Rightarrow> nat \<Rightarrow> fault + (nat \<times> cow)" where
  "String_Clear v = (case v of COW_AtomicInt \<Rightarrow> at_Clear | _ \<Rightarrow> rc_Clear)"

definition EnsureUnique :: "cow_variant \<Rightarrow> cow \<Rightarrow> nat \<Rightarrow> nat \<Rightarrow> fault + (nat \<times> cow)" where
  "EnsureUnique v = (case v of COW_AtomicInt \<Rightarrow> at_EnsureUnique | _ \<Rightarrow> rc_EnsureUnique)"

definition EnsureUnshareable :: "cow_variant \<Rightarrow> cow \<Rightarrow> nat \<Rightarrow> nat \<Rightarrow> fault + (nat \<times> cow)" where
  "EnsureUnshareable v st s n =
     seq (EnsureUnique v st s n)
       (\<lambda>(d, st1).
          case heap st1 d of
            None \<Rightarrow> Inl invalid_pointer
          | Some sb \<Rightarrow> Inr (d, st1\<lparr> heap := (heap st1)(d \<mapsto> sb\<lparr> refs := - 1 \<rparr>) \<rparr>))"

text \<open>\<^verbatim>\<open>data_->buf[data_->used++] = c\<close>, a write into cell \<open>used\<close> of the array.\<close>

definition put_char :: "StringBuf \<Rightarrow> char \<Rightarrow> fault + StringBuf" where
  "put_char sb c =
     (case buf sb of
        None \<Rightarrow> Inl invalid_pointer
      | Some cs \<Rightarrow>
          if used sb < length cs
          then Inr (sb\<lparr> buf := Some (cs[used sb := Some c]), used := used sb + 1 \<rparr>)
          else Inl invalid_pointer)"

definition Append :: "cow_variant \<Rightarrow> cow \<Rightarrow> nat \<Rightarrow> char \<Rightarrow> fault + (nat \<times> cow)" where
  "Append v st s c =
     (case heap st s of
        None \<Rightarrow> Inl invalid_pointer
      | Some sb0 \<Rightarrow>
          seq (EnsureUnique v st s (used sb0 + 1))
            (\<lambda>(d, st1).
               case heap st1 d of
                 None \<Rightarrow> Inl invalid_pointer
               | Some sb \<Rightarrow>
                   seq (put_char sb c) (\<lambda>sb'. Inr (d, st1\<lparr> heap := (heap st1)(d \<mapsto> sb') \<rparr>))))"

definition Length :: "cow \<Rightarrow> nat \<Rightarrow> fault + nat" where
  "Length st s = (case heap st s of None \<Rightarrow> Inl invalid_pointer | Some sb \<Rightarrow> Inr (used sb))"

text \<open>
  \<^verbatim>\<open>operator[]\<close> returns a \<^verbatim>\<open>char&\<close>: the reference \<open>(d, n)\<close> designates cell \<open>n\<close> of the
  array of the StringBuf at \<open>d\<close>. \<open>load\<close> reads through a reference and \<open>store\<close> writes
  through it.
\<close>

type_synonym char_ref = "nat \<times> nat"

definition index :: "cow_variant \<Rightarrow> cow \<Rightarrow> nat \<Rightarrow> nat \<Rightarrow> fault + (nat \<times> cow \<times> char_ref)" where
  "index v st s n =
     (case heap st s of
        None \<Rightarrow> Inl invalid_pointer
      | Some sb0 \<Rightarrow>
          seq (EnsureUnshareable v st s (len sb0)) (\<lambda>(d, st1). Inr (d, st1, (d, n))))"

definition load :: "cow \<Rightarrow> char_ref \<Rightarrow> rdval" where
  "load st r = (case heap st (fst r) of None \<Rightarrow> Wild | Some sb \<Rightarrow> peek (buf sb) (snd r))"

definition store :: "cow \<Rightarrow> char_ref \<Rightarrow> char \<Rightarrow> fault + cow" where
  "store st r c =
     (case heap st (fst r) of
        None \<Rightarrow> Inl invalid_pointer
      | Some sb \<Rightarrow>
          (case buf sb of
             None \<Rightarrow> Inl invalid_pointer
           | Some cs \<Rightarrow>
               if snd r < length cs
               then Inr (st\<lparr> heap := (heap st)(fst r \<mapsto> sb\<lparr> buf := Some (cs[snd r := Some c]) \<rparr>) \<rparr>)
               else Inl invalid_pointer))"

section \<open>COW_AtomicInt2 (test.cpp)\<close>

text \<open>
  One array holds the StringBuf header and the characters. \<open>LEN\<close>, \<open>USED\<close>, \<open>REFS\<close> and
  \<open>BUF\<close> are the macros of the source: the three header fields and the characters that
  follow them. The arrays come from the general heap: \<open>mem\<close> lists them by address
  (address \<open>p\<close> is entry \<open>p - 1\<close>), \<^verbatim>\<open>new\<close> takes the next address and \<^verbatim>\<open>delete[]\<close> empties
  the entry.
\<close>

record glom =
  LEN :: nat
  USED :: nat
  REFS :: int
  BUF :: cells

record cow2 =
  mem :: "glom option list"
  nCopies2 :: int
  nAllocs2 :: int

definition cow2_init :: cow2 where
  "cow2_init = \<lparr> mem = [], nCopies2 = 0, nAllocs2 = 0 \<rparr>"

definition at2 :: "cow2 \<Rightarrow> nat \<Rightarrow> glom option" where
  "at2 st p = (if 0 < p \<and> p \<le> length (mem st) then mem st ! (p - 1) else None)"

definition put2 :: "cow2 \<Rightarrow> nat \<Rightarrow> glom \<Rightarrow> cow2" where
  "put2 st p g = (if 0 < p then st\<lparr> mem := (mem st)[p - 1 := Some g] \<rparr> else st)"

definition new_chars :: "cow2 \<Rightarrow> glom \<Rightarrow> nat \<times> cow2" where
  "new_chars st g = (Suc (length (mem st)), st\<lparr> mem := mem st @ [Some g] \<rparr>)"

definition delete_chars :: "cow2 \<Rightarrow> nat \<Rightarrow> fault + cow2" where
  "delete_chars st p =
     (if p = 0 then Inr st
      else case at2 st p of
        None \<Rightarrow> Inl invalid_pointer
      | Some g \<Rightarrow> Inr (st\<lparr> mem := (mem st)[p - 1 := None] \<rparr>))"

definition String2_ctor :: "cow2 \<Rightarrow> nat \<times> cow2" where
  "String2_ctor st =
     (let (p, st1) = new_chars st \<lparr> LEN = 0, USED = 0, REFS = 1, BUF = [] \<rparr>
      in (p, st1\<lparr> nAllocs2 := nAllocs2 st1 + 1 \<rparr>))"

definition String2_dtor :: "cow2 \<Rightarrow> nat \<Rightarrow> fault + cow2" where
  "String2_dtor st s =
     (case at2 st s of
        None \<Rightarrow> Inl invalid_pointer
      | Some g \<Rightarrow>
          (let r = IntAtomicDecrement (REFS g);
               st1 = put2 st s (g\<lparr> REFS := r \<rparr>)
           in if r < 1 then delete_chars st1 s else Inr st1))"

text \<open>
  Clone: \<^verbatim>\<open>memcpy(newdata, data, sizeof(StringBuf)+USED(data))\<close> copies the header and the
  occupied characters into the new array; \<open>LEN\<close> and \<open>REFS\<close> are then overwritten. \<open>cloned\<close>
  is the content of the new array.
\<close>

definition cloned :: "glom \<Rightarrow> nat \<Rightarrow> glom" where
  "cloned data n =
     (let needed = needed_size (LEN data) n;
          newlen = round_len needed;
          copied = data\<lparr> BUF := memcpy_cells (new_char_array newlen) (BUF data) (USED data) \<rparr>
      in copied\<lparr> LEN := newlen, REFS := 1 \<rparr>)"

definition Clone :: "cow2 \<Rightarrow> nat \<Rightarrow> nat \<Rightarrow> fault + (nat \<times> cow2)" where
  "Clone st p n =
     (case at2 st p of
        None \<Rightarrow> Inl invalid_pointer
      | Some data \<Rightarrow> Inr (new_chars (st\<lparr> nAllocs2 := nAllocs2 st + 1 \<rparr>) (cloned data n)))"

definition String2_copy :: "cow2 \<Rightarrow> nat \<Rightarrow> fault + (nat \<times> cow2)" where
  "String2_copy st other =
     (case at2 st other of
        None \<Rightarrow> Inl invalid_pointer
      | Some g \<Rightarrow>
          seq (if IntAtomicCompare (REFS g) 0 > 0
               then Inr (other, put2 st other (g\<lparr> REFS := IntAtomicIncrement (REFS g) \<rparr>))
               else Clone st other 0)
              (\<lambda>(d, st1). Inr (d, st1\<lparr> nCopies2 := nCopies2 st1 + 1 \<rparr>)))"

text \<open>
  Clear: \<^verbatim>\<open>String tmp; Swap(tmp);\<close> and then the destructor of \<open>tmp\<close>, which by now holds
  the old array.
\<close>

definition String2_Clear :: "cow2 \<Rightarrow> nat \<Rightarrow> fault + (nat \<times> cow2)" where
  "String2_Clear st s =
     (let (tmp, st1) = String2_ctor st
      in seq (String2_dtor st1 s) (\<lambda>st2. Inr (tmp, st2)))"

definition Reserve2 :: "cow2 \<Rightarrow> nat \<Rightarrow> nat \<Rightarrow> fault + (nat \<times> cow2)" where
  "Reserve2 st s n =
     (case at2 st s of
        None \<Rightarrow> Inl invalid_pointer
      | Some g \<Rightarrow>
          if LEN g < n
          then seq (Clone st s n)
                 (\<lambda>(newdata, st1). seq (delete_chars st1 s) (\<lambda>st2. Inr (newdata, st2)))
          else Inr (s, st))"

definition EnsureUnique2 :: "cow2 \<Rightarrow> nat \<Rightarrow> nat \<Rightarrow> fault + (nat \<times> cow2)" where
  "EnsureUnique2 st s n =
     (case at2 st s of
        None \<Rightarrow> Inl invalid_pointer
      | Some g \<Rightarrow>
          if IntAtomicCompare (REFS g) 1 > 0
          then seq (Clone st s n)
                 (\<lambda>(newdata, st1).
                    case at2 st1 s of
                      None \<Rightarrow> Inl invalid_pointer
                    | Some g1 \<Rightarrow>
                        (let r = IntAtomicDecrement (REFS g1);
                             st2 = put2 st1 s (g1\<lparr> REFS := r \<rparr>)
                         in if r < 1
                            then seq (delete_chars st2 newdata)
                                   (\<lambda>st3. case at2 st3 s of
                                             None \<Rightarrow> Inl invalid_pointer
                                           | Some g3 \<Rightarrow> Inr (s, put2 st3 s (g3\<lparr> REFS := 1 \<rparr>)))
                            else Inr (newdata, st2)))
          else seq (Reserve2 st s n)
                 (\<lambda>(d, st1).
                    case at2 st1 d of
                      None \<Rightarrow> Inl invalid_pointer
                    | Some g1 \<Rightarrow> Inr (d, put2 st1 d (g1\<lparr> REFS := 1 \<rparr>))))"

definition EnsureUnshareable2 :: "cow2 \<Rightarrow> nat \<Rightarrow> nat \<Rightarrow> fault + (nat \<times> cow2)" where
  "EnsureUnshareable2 st s n =
     seq (EnsureUnique2 st s n)
       (\<lambda>(d, st1).
          case at2 st1 d of
            None \<Rightarrow> Inl invalid_pointer
          | Some g \<Rightarrow> Inr (d, put2 st1 d (g\<lparr> REFS := - 1 \<rparr>)))"

definition put_char2 :: "glom \<Rightarrow> char \<Rightarrow> fault + glom" where
  "put_char2 g c =
     (if USED g < length (BUF g)
      then Inr (g\<lparr> BUF := (BUF g)[USED g := Some c], USED := USED g + 1 \<rparr>)
      else Inl invalid_pointer)"

definition Append2 :: "cow2 \<Rightarrow> nat \<Rightarrow> char \<Rightarrow> fault + (nat \<times> cow2)" where
  "Append2 st s c =
     (case at2 st s of
        None \<Rightarrow> Inl invalid_pointer
      | Some g0 \<Rightarrow>
          seq (EnsureUnique2 st s (USED g0 + 1))
            (\<lambda>(d, st1).
               case at2 st1 d of
                 None \<Rightarrow> Inl invalid_pointer
               | Some g \<Rightarrow> seq (put_char2 g c) (\<lambda>g'. Inr (d, put2 st1 d g'))))"

definition Length2 :: "cow2 \<Rightarrow> nat \<Rightarrow> fault + nat" where
  "Length2 st s = (case at2 st s of None \<Rightarrow> Inl invalid_pointer | Some g \<Rightarrow> Inr (USED g))"

definition index2 :: "cow2 \<Rightarrow> nat \<Rightarrow> nat \<Rightarrow> fault + (nat \<times> cow2 \<times> char_ref)" where
  "index2 st s n =
     (case at2 st s of
        None \<Rightarrow> Inl invalid_pointer
      | Some g0 \<Rightarrow>
          seq (EnsureUnshareable2 st s (LEN g0)) (\<lambda>(d, st1). Inr (d, st1, (d, n))))"

definition load2 :: "cow2 \<Rightarrow> char_ref \<Rightarrow> rdval" where
  "load2 st r = (case at2 st (fst r) of None \<Rightarrow> Wild | Some g \<Rightarrow> peek (Some (BUF g)) (snd r))"

definition store2 :: "cow2 \<Rightarrow> char_ref \<Rightarrow> char \<Rightarrow> fault + cow2" where
  "store2 st r c =
     (case at2 st (fst r) of
        None \<Rightarrow> Inl invalid_pointer
      | Some g \<Rightarrow>
          if snd r < length (BUF g)
          then Inr (put2 st (fst r) (g\<lparr> BUF := (BUF g)[snd r := Some c] \<rparr>))
          else Inl invalid_pointer)"

section \<open>Plain (test.cpp)\<close>

text \<open>
  The members \<^verbatim>\<open>buf_\<close>, \<^verbatim>\<open>len_\<close> and \<^verbatim>\<open>used_\<close> are \<open>buf_p\<close>, \<open>len_p\<close> and \<open>used_p\<close>. The
  members that allocate take and return the static counter \<^verbatim>\<open>nAllocs\<close>.
\<close>

record PlainString =
  buf_p :: "cells option"
  len_p :: nat
  used_p :: nat

definition Plain_ctor :: PlainString where
  "Plain_ctor = \<lparr> buf_p = None, len_p = 0, used_p = 0 \<rparr>"

definition Plain_Reserve :: "PlainString \<Rightarrow> nat \<Rightarrow> int \<Rightarrow> PlainString \<times> int" where
  "Plain_Reserve s n nA =
     (if len_p s < n then
        let needed = needed_size (len_p s) n;
            newlen = round_len needed;
            nA' = (if newlen \<noteq> 0 then nA + 1 else nA);
            newbuf = (if newlen \<noteq> 0 then Some (new_char_array newlen) else None);
            newbuf' = (if buf_p s \<noteq> None then memcpy newbuf (buf_p s) (used_p s) else newbuf)
        in (s\<lparr> buf_p := newbuf', len_p := newlen \<rparr>, nA')
      else (s, nA))"

definition Plain_Append :: "PlainString \<Rightarrow> char \<Rightarrow> int \<Rightarrow> fault + (PlainString \<times> int)" where
  "Plain_Append s c nA =
     (let (s1, nA1) = Plain_Reserve s (used_p s + 1) nA
      in case buf_p s1 of
           None \<Rightarrow> Inl invalid_pointer
         | Some cs \<Rightarrow>
             if used_p s1 < length cs
             then Inr (s1\<lparr> buf_p := Some (cs[used_p s1 := Some c]), used_p := used_p s1 + 1 \<rparr>, nA1)
             else Inl invalid_pointer)"

definition Plain_Length :: "PlainString \<Rightarrow> nat" where
  "Plain_Length s = used_p s"

text \<open>
  \<^verbatim>\<open>operator[]\<close> returns \<^verbatim>\<open>*(buf_+n)\<close>. A Plain string owns its array, so the reference
  is the offset into it; \<open>Plain_load\<close> reads through the reference.
\<close>

definition Plain_index :: "PlainString \<Rightarrow> nat \<Rightarrow> nat" where
  "Plain_index s n = n"

definition Plain_load :: "PlainString \<Rightarrow> nat \<Rightarrow> rdval" where
  "Plain_load s r = peek (buf_p s) r"

section \<open>Plain_FastAlloc (test.cpp)\<close>

text \<open>
  As Plain, with the array taken from the static arena \<^verbatim>\<open>fa("Plain_FastAlloc")\<close>, whose
  chunk size is the default \<open>3000\<close>. \<open>buf_f\<close> is the pointer \<^verbatim>\<open>buf_\<close> and \<open>chars_f\<close> the
  \<open>len_f\<close> cells the string uses of the block it points to.
\<close>

record FastString =
  buf_f :: nat
  chars_f :: cells
  len_f :: nat
  used_f :: nat

record fast_ns =
  fa_f :: FastArena
  nCopies_f :: int
  nAllocs_f :: int

definition fast_init :: "nat \<Rightarrow> fast_ns" where
  "fast_init base = \<lparr> fa_f = FastArena_ctor base 3000, nCopies_f = 0, nAllocs_f = 0 \<rparr>"

definition Fast_ctor :: FastString where
  "Fast_ctor = \<lparr> buf_f = 0, chars_f = [], len_f = 0, used_f = 0 \<rparr>"

text \<open>\<^verbatim>\<open>++nAllocs\<close> is evaluated before \<^verbatim>\<open>fa.Allocate(newlen)\<close>.\<close>

definition Fast_Reserve :: "fast_ns \<Rightarrow> FastString \<Rightarrow> nat \<Rightarrow> fault + (FastString \<times> fast_ns)" where
  "Fast_Reserve ns s n =
     (if len_f s < n then
        let needed = needed_size (len_f s) n;
            newlen = round_len needed
        in seq (if newlen \<noteq> 0
                then seq (Allocate (fa_f ns) newlen)
                       (\<lambda>(p, A). Inr (p, ns\<lparr> fa_f := A, nAllocs_f := nAllocs_f ns + 1 \<rparr>))
                else Inr (0, ns))
             (\<lambda>(newbuf, ns1).
                let newchars =
                      (if buf_f s \<noteq> 0
                       then memcpy_cells (new_char_array newlen) (chars_f s) (used_f s)
                       else new_char_array newlen)
                in seq (Deallocate (fa_f ns1) (buf_f s))
                     (\<lambda>A. Inr (s\<lparr> buf_f := newbuf, chars_f := newchars, len_f := newlen \<rparr>,
                                ns1\<lparr> fa_f := A \<rparr>)))
      else Inr (s, ns))"

definition Fast_Append :: "fast_ns \<Rightarrow> FastString \<Rightarrow> char \<Rightarrow> fault + (FastString \<times> fast_ns)" where
  "Fast_Append ns s c =
     seq (Fast_Reserve ns s (used_f s + 1))
       (\<lambda>(s1, ns1).
          if buf_f s1 \<noteq> 0 \<and> used_f s1 < length (chars_f s1)
          then Inr (s1\<lparr> chars_f := (chars_f s1)[used_f s1 := Some c], used_f := used_f s1 + 1 \<rparr>, ns1)
          else Inl invalid_pointer)"

definition Fast_Length :: "FastString \<Rightarrow> nat" where
  "Fast_Length s = used_f s"

definition Fast_index :: "FastString \<Rightarrow> nat \<Rightarrow> nat" where
  "Fast_index s n = n"

definition Fast_load :: "FastString \<Rightarrow> nat \<Rightarrow> rdval" where
  "Fast_load s r = (if buf_f s = 0 then Wild else peek (Some (chars_f s)) r)"

section \<open>StdString and AtlString (test.cpp)\<close>

text \<open>
  The String of namespace StdString holds a \<^verbatim>\<open>std::string _s\<close>, that of AtlString an
  \<^verbatim>\<open>ATL::CStringA _s\<close>, and every member forwards to \<^verbatim>\<open>_s\<close>. The two library classes are
  not part of the repository. The value of \<^verbatim>\<open>_s\<close> is taken to be the characters it holds,
  which is what the comments of the two wrappers say of their members (``start off
  empty'', ``take a full copy'', ``append one character''): \<^verbatim>\<open>_s += c\<close> puts \<open>c\<close> at the end,
  \<^verbatim>\<open>_s.size()\<close> and \<^verbatim>\<open>_s.GetLength()\<close> count the characters, \<^verbatim>\<open>_s.clear()\<close> and
  \<^verbatim>\<open>_s.Empty()\<close> remove them, and for \<open>n\<close> below the length \<^verbatim>\<open>_s[n]\<close> and \<^verbatim>\<open>_s.GetAt(n)\<close>
  are the character at \<open>n\<close>.

  What the library's accessor does with an index at or past the length is decided by no
  line of the repository. It is a parameter of the model, \<open>beyond\<close>: given the characters
  held and the index, it yields what the accessor returns or the exception it raises. The
  wrappers hand the index over as it is; \<^verbatim>\<open>static_cast<int>(n)\<close> in AtlString keeps the
  value of every index below \<open>2^31\<close>, and a CStringA has no index beyond that.
\<close>

type_synonym accessor = "string \<Rightarrow> nat \<Rightarrow> fault + rdval"

definition Std_ctor :: string where
  "Std_ctor = []"

definition Std_copy :: "string \<Rightarrow> string" where
  "Std_copy other = other"

definition Std_Clear :: "string \<Rightarrow> string" where
  "Std_Clear s = []"

definition Std_Append :: "string \<Rightarrow> char \<Rightarrow> string" where
  "Std_Append s c = s @ [c]"

definition Std_Length :: "string \<Rightarrow> nat" where
  "Std_Length s = length s"

definition Std_index :: "accessor \<Rightarrow> string \<Rightarrow> nat \<Rightarrow> fault + rdval" where
  "Std_index beyond s n = (if n < length s then Inr (Chr (s ! n)) else beyond s n)"

definition Atl_ctor :: string where
  "Atl_ctor = []"

definition Atl_copy :: "string \<Rightarrow> string" where
  "Atl_copy other = other"

definition Atl_Clear :: "string \<Rightarrow> string" where
  "Atl_Clear s = []"

definition Atl_Append :: "string \<Rightarrow> char \<Rightarrow> string" where
  "Atl_Append s c = s @ [c]"

definition Atl_Length :: "string \<Rightarrow> nat" where
  "Atl_Length s = length s"

definition Atl_index :: "accessor \<Rightarrow> string \<Rightarrow> nat \<Rightarrow> fault + rdval" where
  "Atl_index beyond s n = (if n < length s then Inr (Chr (s ! n)) else beyond s n)"

text \<open>
  One accessor, for reference: \<^verbatim>\<open>CSimpleStringT::GetAt(int iChar)\<close> as the header
  \<^verbatim>\<open>atlsimpstr.h\<close> of Visual C++ defines it,
  \<^verbatim>\<open>if( (iChar < 0) || (iChar > GetLength()) ) AtlThrow(E_INVALIDARG); return m_pszData[iChar];\<close>.
  At the length it returns the terminating zero, past the length it throws. The header is
  not part of the repository, and nothing but the example that follows claim C10 depends
  on this definition.
\<close>

definition CSimpleStringT_GetAt :: accessor where
  "CSimpleStringT_GetAt s n = (if n = length s then Inr (Chr (CHR 0x00)) else Inl invalid_arg)"

section \<open>Sequences of public operations\<close>

text \<open>
  A driver in the manner of \<^verbatim>\<open>Test\<close> in test.cpp: it runs a list of public operations
  on the Strings of one namespace, starting in the namespace's initial state, and records
  what \<^verbatim>\<open>Length\<close> returns and what is read through the reference \<^verbatim>\<open>operator[]\<close>
  returns. Strings are numbered in the order of their construction; \<open>vars\<close> holds the
  \<^verbatim>\<open>data_\<close> of each, \<open>None\<close> once it has been destroyed. An operation on a String that does
  not exist is \<open>invalid_pointer\<close>.

  \<open>op\<close> lists the seven public member functions that the String class of every namespace
  declares: the default constructor, the copy constructor, the destructor, \<^verbatim>\<open>Clear\<close>,
  \<^verbatim>\<open>Append\<close>, \<^verbatim>\<open>operator[]\<close> and \<^verbatim>\<open>Length\<close>. The String of COW_AtomicInt2 declares an
  eighth, \<^verbatim>\<open>Swap\<close>; \<open>op2\<close> below adds it.
\<close>

datatype op = New | Copy nat | Destroy nat | Clear nat | App nat char | Idx nat nat | Len nat

datatype obs = Length_is nat | Char_is rdval

definition var :: "nat option list \<Rightarrow> nat \<Rightarrow> fault + nat" where
  "var vs i =
     (if i < length vs
      then (case vs ! i of Some s \<Rightarrow> Inr s | None \<Rightarrow> Inl invalid_pointer)
      else Inl invalid_pointer)"

fun step :: "cow_variant \<Rightarrow> cow \<times> nat option list \<times> obs list \<Rightarrow> op
               \<Rightarrow> fault + (cow \<times> nat option list \<times> obs list)" where
  "step v (st, vs, tr) New =
     seq (String_ctor st) (\<lambda>(d, st'). Inr (st', vs @ [Some d], tr))"
| "step v (st, vs, tr) (Copy i) =
     seq (var vs i) (\<lambda>s.
       seq (String_copy v st s) (\<lambda>(d, st'). Inr (st', vs @ [Some d], tr)))"
| "step v (st, vs, tr) (Destroy i) =
     seq (var vs i) (\<lambda>s.
       seq (String_dtor v st s) (\<lambda>st'. Inr (st', vs[i := None], tr)))"
| "step v (st, vs, tr) (Clear i) =
     seq (var vs i) (\<lambda>s.
       seq (String_Clear v st s) (\<lambda>(d, st'). Inr (st', vs[i := Some d], tr)))"
| "step v (st, vs, tr) (App i c) =
     seq (var vs i) (\<lambda>s.
       seq (Append v st s c) (\<lambda>(d, st'). Inr (st', vs[i := Some d], tr)))"
| "step v (st, vs, tr) (Idx i n) =
     seq (var vs i) (\<lambda>s.
       seq (index v st s n)
         (\<lambda>(d, st', r). Inr (st', vs[i := Some d], tr @ [Char_is (load st' r)])))"
| "step v (st, vs, tr) (Len i) =
     seq (var vs i) (\<lambda>s.
       seq (Length st s) (\<lambda>k. Inr (st, vs, tr @ [Length_is k])))"

fun run :: "cow_variant \<Rightarrow> cow \<times> nat option list \<times> obs list \<Rightarrow> op list
              \<Rightarrow> fault + (cow \<times> nat option list \<times> obs list)" where
  "run v cfg [] = Inr cfg"
| "run v cfg (x # xs) = seq (step v cfg x) (\<lambda>cfg'. run v cfg' xs)"

definition observe :: "cow_variant \<Rightarrow> nat \<Rightarrow> nat \<Rightarrow> op list \<Rightarrow> fault + obs list" where
  "observe v base sz ops =
     seq (run v (cow_init base sz, [], []) ops) (\<lambda>(st, vs, tr). Inr tr)"

text \<open>The same driver for COW_AtomicInt2.\<close>

fun step2 :: "cow2 \<times> nat option list \<times> obs list \<Rightarrow> op
               \<Rightarrow> fault + (cow2 \<times> nat option list \<times> obs list)" where
  "step2 (st, vs, tr) New =
     (let (d, st') = String2_ctor st in Inr (st', vs @ [Some d], tr))"
| "step2 (st, vs, tr) (Copy i) =
     seq (var vs i) (\<lambda>s.
       seq (String2_copy st s) (\<lambda>(d, st'). Inr (st', vs @ [Some d], tr)))"
| "step2 (st, vs, tr) (Destroy i) =
     seq (var vs i) (\<lambda>s.
       seq (String2_dtor st s) (\<lambda>st'. Inr (st', vs[i := None], tr)))"
| "step2 (st, vs, tr) (Clear i) =
     seq (var vs i) (\<lambda>s.
       seq (String2_Clear st s) (\<lambda>(d, st'). Inr (st', vs[i := Some d], tr)))"
| "step2 (st, vs, tr) (App i c) =
     seq (var vs i) (\<lambda>s.
       seq (Append2 st s c) (\<lambda>(d, st'). Inr (st', vs[i := Some d], tr)))"
| "step2 (st, vs, tr) (Idx i n) =
     seq (var vs i) (\<lambda>s.
       seq (index2 st s n)
         (\<lambda>(d, st', r). Inr (st', vs[i := Some d], tr @ [Char_is (load2 st' r)])))"
| "step2 (st, vs, tr) (Len i) =
     seq (var vs i) (\<lambda>s.
       seq (Length2 st s) (\<lambda>k. Inr (st, vs, tr @ [Length_is k])))"

fun run2 :: "cow2 \<times> nat option list \<times> obs list \<Rightarrow> op list
              \<Rightarrow> fault + (cow2 \<times> nat option list \<times> obs list)" where
  "run2 cfg [] = Inr cfg"
| "run2 cfg (x # xs) = seq (step2 cfg x) (\<lambda>cfg'. run2 cfg' xs)"

definition observe2 :: "op list \<Rightarrow> fault + obs list" where
  "observe2 ops = seq (run2 (cow2_init, [], []) ops) (\<lambda>(st, vs, tr). Inr tr)"

text \<open>
  The whole public interface of \<^verbatim>\<open>COW_AtomicInt2::String\<close>: the seven common members and
  \<^verbatim>\<open>void Swap( String& other ) throw() { swap( data_, other.data_ ); }\<close>, which exchanges
  the \<^verbatim>\<open>data_\<close> of two Strings and touches no buffer.
\<close>

datatype op2 = Common op | Swap nat nat

fun step2_full :: "cow2 \<times> nat option list \<times> obs list \<Rightarrow> op2
               \<Rightarrow> fault + (cow2 \<times> nat option list \<times> obs list)" where
  "step2_full cfg (Common x) = step2 cfg x"
| "step2_full (st, vs, tr) (Swap i k) =
     seq (var vs i) (\<lambda>s.
       seq (var vs k) (\<lambda>t. Inr (st, vs[i := Some t, k := Some s], tr)))"

fun run2_full :: "cow2 \<times> nat option list \<times> obs list \<Rightarrow> op2 list
              \<Rightarrow> fault + (cow2 \<times> nat option list \<times> obs list)" where
  "run2_full cfg [] = Inr cfg"
| "run2_full cfg (x # xs) = seq (step2_full cfg x) (\<lambda>cfg'. run2_full cfg' xs)"

section \<open>The unshareable state of a buffer\<close>

text \<open>
  \<open>unshareable_at st s\<close>: the StringBuf at \<open>s\<close> is live and its \<open>refs\<close> is the value
  \<^verbatim>\<open>EnsureUnshareable\<close> stores, \<open>- 1\<close>. \<open>sole_owner vs j s\<close>: String \<open>j\<close> of the driver holds
  \<open>s\<close> and no other String does. \<open>resets j x\<close>: the operation \<open>x\<close> is an Append, a Clear or
  the destruction of String \<open>j\<close>; \<open>resets2 j x\<close>: it is one of these or, in COW_AtomicInt2,
  a Swap that has String \<open>j\<close> on either side.
\<close>

definition unshareable_at :: "cow \<Rightarrow> nat \<Rightarrow> bool" where
  "unshareable_at st s =
     (allocated (fa st) s \<and> (case heap st s of None \<Rightarrow> False | Some sb \<Rightarrow> refs sb = - 1))"

definition unshareable_at2 :: "cow2 \<Rightarrow> nat \<Rightarrow> bool" where
  "unshareable_at2 st s = (case at2 st s of None \<Rightarrow> False | Some g \<Rightarrow> REFS g = - 1)"

definition sole_owner :: "nat option list \<Rightarrow> nat \<Rightarrow> nat \<Rightarrow> bool" where
  "sole_owner vs j s =
     (j < length vs \<and> vs ! j = Some s \<and> (\<forall>i < length vs. i \<noteq> j \<longrightarrow> vs ! i \<noteq> Some s))"

fun resets :: "nat \<Rightarrow> op \<Rightarrow> bool" where
  "resets j (App i c) = (i = j)"
| "resets j (Clear i) = (i = j)"
| "resets j (Destroy i) = (i = j)"
| "resets j x = False"

fun resets2 :: "nat \<Rightarrow> op2 \<Rightarrow> bool" where
  "resets2 j (Common x) = resets j x"
| "resets2 j (Swap a b) = (a = j \<or> b = j)"

section \<open>Building a string and reading it back\<close>

text \<open>
  A \<open>world\<close> is one of the nine namespaces together with the state its statics are in when
  a String is constructed: the allocation counter of Plain; the arena of Plain_FastAlloc,
  whose chunk size is 3000 in every state and whose block markers \<open>h\<close> are arbitrary (other
  Strings of the namespace may hold blocks), and the two counters; the arena, the
  StringBufs and the counters of a copy-on-write namespace of common-test.h; the buffers
  and counters of COW_AtomicInt2; and, for StdString and AtlString, what the library's
  accessor does out of range.
\<close>

datatype world =
    In_Plain int
  | In_Plain_FastAlloc nat "nat \<Rightarrow> int" int int
  | In_StdString accessor
  | In_AtlString accessor
  | In_COW cow_variant cow
  | In_COW_AtomicInt2 cow2

definition fast_state :: "nat \<Rightarrow> (nat \<Rightarrow> int) \<Rightarrow> int \<Rightarrow> int \<Rightarrow> fast_ns" where
  "fast_state base h nC nA =
     \<lparr> fa_f = (FastArena_ctor base 3000)\<lparr> hdr := h \<rparr>, nCopies_f = nC, nAllocs_f = nA \<rparr>"

text \<open>
  The round trip of a string \<open>cs\<close> in a world: a String is constructed, the characters are
  appended one by one, and \<^verbatim>\<open>s[0]\<close>, \<^verbatim>\<open>s[1]\<close>, ... are read, as many as were appended. For the
  copy-on-write namespaces this is a run of the driver above; the other namespaces have a
  loop of Appends of their own.
\<close>

fun Plain_appends :: "PlainString \<Rightarrow> int \<Rightarrow> string \<Rightarrow> fault + (PlainString \<times> int)" where
  "Plain_appends s nA [] = Inr (s, nA)"
| "Plain_appends s nA (c # cs) =
     seq (Plain_Append s c nA) (\<lambda>(s', nA'). Plain_appends s' nA' cs)"

fun Fast_appends :: "fast_ns \<Rightarrow> FastString \<Rightarrow> string \<Rightarrow> fault + (FastString \<times> fast_ns)" where
  "Fast_appends ns s [] = Inr (s, ns)"
| "Fast_appends ns s (c # cs) =
     seq (Fast_Append ns s c) (\<lambda>(s', ns'). Fast_appends ns' s' cs)"

fun collect :: "(nat \<Rightarrow> fault + rdval) \<Rightarrow> nat list \<Rightarrow> fault + obs list" where
  "collect f [] = Inr []"
| "collect f (i # js) = seq (f i) (\<lambda>r. seq (collect f js) (\<lambda>rs. Inr (Char_is r # rs)))"

definition build_ops :: "string \<Rightarrow> op list" where
  "build_ops cs = New # map (App 0) cs"

definition reads_after :: "world \<Rightarrow> string \<Rightarrow> nat list \<Rightarrow> fault + obs list" where
  "reads_after W cs ns =
     (case W of
        In_Plain nA \<Rightarrow>
          seq (Plain_appends Plain_ctor nA cs)
            (\<lambda>(s, nA'). Inr (map (\<lambda>i. Char_is (Plain_load s (Plain_index s i))) ns))
      | In_Plain_FastAlloc base h nC nA \<Rightarrow>
          seq (Fast_appends (fast_state base h nC nA) Fast_ctor cs)
            (\<lambda>(s, ns'). Inr (map (\<lambda>i. Char_is (Fast_load s (Fast_index s i))) ns))
      | In_StdString beyond \<Rightarrow> collect (Std_index beyond (foldl Std_Append Std_ctor cs)) ns
      | In_AtlString beyond \<Rightarrow> collect (Atl_index beyond (foldl Atl_Append Atl_ctor cs)) ns
      | In_COW w st \<Rightarrow>
          seq (run w (st, [], []) (build_ops cs @ map (Idx 0) ns)) (\<lambda>(st', vs, tr). Inr tr)
      | In_COW_AtomicInt2 st \<Rightarrow>
          seq (run2 (st, [], []) (build_ops cs @ map (Idx 0) ns)) (\<lambda>(st', vs, tr). Inr tr))"

definition round_trip :: "world \<Rightarrow> string \<Rightarrow> fault + obs list" where
  "round_trip W cs = reads_after W cs [0..<length cs]"

text \<open>
  \<open>holds_cells cs l u xs\<close>: the array \<open>cs\<close> of \<open>l\<close> cells holds the string \<open>xs\<close> in its first
  \<open>u\<close> cells, and its other cells have never been written. \<open>holds\<close>, \<open>holds2\<close>, \<open>holds_p\<close>
  and \<open>holds_f\<close> say this of the buffers of the four kinds of namespace.
\<close>

definition holds_cells :: "cells \<Rightarrow> nat \<Rightarrow> nat \<Rightarrow> string \<Rightarrow> bool" where
  "holds_cells cs l u xs =
     (u = length xs \<and> length cs = l \<and> u \<le> l \<and> cs = map Some xs @ replicate (l - u) None)"

definition holds :: "StringBuf \<Rightarrow> string \<Rightarrow> bool" where
  "holds sb xs =
     (case buf sb of
        None \<Rightarrow> len sb = 0 \<and> used sb = 0 \<and> xs = []
      | Some cs \<Rightarrow> holds_cells cs (len sb) (used sb) xs)"

definition holds2 :: "glom \<Rightarrow> string \<Rightarrow> bool" where
  "holds2 g xs = holds_cells (BUF g) (LEN g) (USED g) xs"

definition holds_p :: "PlainString \<Rightarrow> string \<Rightarrow> bool" where
  "holds_p s xs =
     (case buf_p s of
        None \<Rightarrow> len_p s = 0 \<and> used_p s = 0 \<and> xs = []
      | Some cs \<Rightarrow> holds_cells cs (len_p s) (used_p s) xs)"

text \<open>
  The capacity of a buffer: \<open>grow l n\<close> is what \<^verbatim>\<open>Reserve(n)\<close> makes of capacity \<open>l\<close> (the
  same computation in Plain, Plain_FastAlloc, StringBuf and COW_AtomicInt2), and \<open>cap k\<close>
  is the capacity of a String after \<open>k\<close> single Appends from empty: 0, 4, 4, 4, 4, 8, ...
\<close>

definition grow :: "nat \<Rightarrow> nat \<Rightarrow> nat" where
  "grow l n = (if l < n then round_len (needed_size l n) else l)"

fun cap :: "nat \<Rightarrow> nat" where
  "cap 0 = 0"
| "cap (Suc k) = grow (cap k) (Suc k)"

text \<open>
  A Plain_FastAlloc string takes its character array from the arena. \<open>free_count h\<close> is the
  number of free blocks under the markers \<open>h\<close>. Growing needs a free block while the old
  block is still held, so a string can reach the capacities 4, 8, 12, 20, ..., 1892, 2840
  when two blocks are free, capacity 4 when one is, and none otherwise; the capacity after
  2840 would be 4260, more than a chunk of 3000 bytes. \<open>reach h\<close> is the longest string the
  arena lets a new String grow to.
\<close>

definition free_count :: "(nat \<Rightarrow> int) \<Rightarrow> nat" where
  "free_count h = length (filter (\<lambda>i. h i = 0) [0..<FastArena_size])"

definition reach :: "(nat \<Rightarrow> int) \<Rightarrow> nat" where
  "reach h = (if 2 \<le> free_count h then 2840 else if 1 \<le> free_count h then 4 else 0)"

text \<open>
  For a Plain_FastAlloc string: \<open>arena_f h ns s\<close> says that the arena's chunk size is 3000
  and that its markers are \<open>h\<close>, except that the string's block (if it has one) is marked
  in use once; \<open>content_f s xs\<close> that the string's array holds \<open>xs\<close>; \<open>holds_f\<close> both, and
  that the capacity is the one \<open>length xs\<close> Appends lead to.
\<close>

definition arena_f :: "(nat \<Rightarrow> int) \<Rightarrow> fast_ns \<Rightarrow> FastString \<Rightarrow> bool" where
  "arena_f h ns s =
     (n_fa (fa_f ns) = 3000
      \<and> (if buf_f s = 0
          then hdr (fa_f ns) = h
          else (\<exists>i < FastArena_size. buf_f s = payload_addr (fa_f ns) i
                  \<and> h i = 0 \<and> hdr (fa_f ns) = h(i := 1))))"

definition content_f :: "FastString \<Rightarrow> string \<Rightarrow> bool" where
  "content_f s xs =
     (if buf_f s = 0
      then len_f s = 0 \<and> used_f s = 0 \<and> xs = []
      else holds_cells (chars_f s) (len_f s) (used_f s) xs)"

definition holds_f :: "(nat \<Rightarrow> int) \<Rightarrow> fast_ns \<Rightarrow> FastString \<Rightarrow> string \<Rightarrow> bool" where
  "holds_f h ns s xs =
     (arena_f h ns s \<and> content_f s xs
      \<and> len_f s = cap (length xs) \<and> len_f s \<le> reach h
      \<and> (buf_f s = 0 \<or> xs \<noteq> []))"

text \<open>
  \<open>builds W k\<close>: in world \<open>W\<close> a String can be constructed and \<open>k\<close> characters appended to
  it. Plain, COW_AtomicInt2 and the library strings have no limit in this model. The
  String of a copy-on-write namespace of common-test.h needs a block of the arena for its
  StringBuf when it is constructed, and none afterwards.
\<close>

definition builds :: "world \<Rightarrow> nat \<Rightarrow> bool" where
  "builds W k =
     (case W of
        In_Plain_FastAlloc base h nC nA \<Rightarrow> k \<le> reach h
      | In_COW w st \<Rightarrow> sizeof_StringBuf st \<le> n_fa (fa st) \<and> 0 < free_count (hdr (fa st))
      | _ \<Rightarrow> True)"

section \<open>Reading one position of a built string\<close>

text \<open>
  \<open>read_at W cs n\<close>: in world \<open>W\<close> a String is constructed, the characters \<open>cs\<close> are appended
  and \<^verbatim>\<open>s[n]\<close> is read, whatever \<open>n\<close> is. \<open>slot cs n\<close> is what cell \<open>n\<close> of the backing
  array holds then, in the namespaces that manage their own array: the character, an
  indeterminate value in a cell the Appends have not reached, or nothing of the array at
  all.
\<close>

definition read_at :: "world \<Rightarrow> string \<Rightarrow> nat \<Rightarrow> fault + obs list" where
  "read_at W cs n = reads_after W cs [n]"

definition slot :: "string \<Rightarrow> nat \<Rightarrow> rdval" where
  "slot cs n =
     (if n < length cs then Chr (cs ! n)
      else if n < cap (length cs) then Indeterminate
      else Wild)"

section \<open>Statements of the specification used for comparison\<close>

text \<open>
  The capacity the specification gives for a clone of a buffer of capacity \<open>l\<close> with
  minimum capacity \<open>n\<close>: the larger of 1.5 times \<open>l\<close> and \<open>n\<close>, rounded up to the next
  multiple of 4. (\<open>(3 * l + 1) div 2\<close> is 1.5 times \<open>l\<close> rounded up to a whole number,
  which changes nothing once the result is rounded up to a multiple of 4.)
\<close>

definition round_up4 :: "nat \<Rightarrow> nat" where
  "round_up4 k = (k + 3) div 4 * 4"

definition claimed_clone_capacity :: "nat \<Rightarrow> nat \<Rightarrow> nat" where
  "claimed_clone_capacity l n = round_up4 (max ((3 * l + 1) div 2) n)"

section \<open>FastArena: the search loop\<close>

lemma scan_step: "i < FastArena_size \<Longrightarrow> h i \<noteq> 0 \<Longrightarrow> scan h i = scan h (Suc i)"
  by (subst scan.simps) simp

lemma scan_stop: "\<not> (i < FastArena_size \<and> h i \<noteq> 0) \<Longrightarrow> scan h i = i"
  by (subst scan.simps) auto

lemma scan_stops_free: "scan h i < FastArena_size \<Longrightarrow> h (scan h i) = 0"
proof (induction h i rule: scan.induct)
  case (1 h i)
  show ?case
  proof (cases "i < FastArena_size \<and> h i \<noteq> 0")
    case True
    with 1 show ?thesis by (simp add: scan_step)
  next
    case False
    with 1(2) show ?thesis by (auto simp add: scan_stop)
  qed
qed

lemma scan_skips_used: "i \<le> j \<Longrightarrow> j < scan h i \<Longrightarrow> h j \<noteq> 0"
proof (induction h i rule: scan.induct)
  case (1 h i)
  show ?case
  proof (cases "i < FastArena_size \<and> h i \<noteq> 0")
    case True
    with 1(3) have lt: "j < scan h (Suc i)" by (simp add: scan_step)
    show ?thesis
    proof (cases "j = i")
      case True
      with \<open>i < FastArena_size \<and> h i \<noteq> 0\<close> show ?thesis by simp
    next
      case False
      with 1(2) have "Suc i \<le> j" by simp
      with 1(1) True lt show ?thesis by blast
    qed
  next
    case False
    with 1(3) have "j < i" by (simp add: scan_stop)
    with 1(2) show ?thesis by simp
  qed
qed

lemma scan_exhausted_iff:
  "FastArena_size \<le> scan h 0 \<longleftrightarrow> (\<forall>i < FastArena_size. h i \<noteq> 0)"
proof
  assume a: "FastArena_size \<le> scan h 0"
  show "\<forall>i < FastArena_size. h i \<noteq> 0"
  proof (intro allI impI)
    fix i assume "i < FastArena_size"
    with a have "i < scan h 0" by simp
    then show "h i \<noteq> 0" using scan_skips_used [of 0 i h] by simp
  qed
next
  assume a: "\<forall>i < FastArena_size. h i \<noteq> 0"
  show "FastArena_size \<le> scan h 0"
  proof (rule ccontr)
    assume "\<not> FastArena_size \<le> scan h 0"
    then have lt: "scan h 0 < FastArena_size" by simp
    then have "h (scan h 0) = 0" by (rule scan_stops_free)
    with a lt show False by blast
  qed
qed

lemma scan_fresh_arena: "scan (\<lambda>i. 0) 0 = 0"
  by (simp add: scan_stop)

section \<open>FastArena: blocks and their payload addresses\<close>

lemma stride_pos: "0 < stride A"
  by (simp add: stride_def sizeof_long_def)

lemma block_index_payload_addr:
  "i < FastArena_size \<Longrightarrow> block_index A (payload_addr A i) = Some i"
  using stride_pos [of A] by (simp add: block_index_def payload_addr_def)

lemma block_index_SomeD:
  assumes "block_index A p = Some i"
  shows "p = payload_addr A i" and "i < FastArena_size"
proof -
  let ?d = "p - sizeof_long - buf_fa A"
  from assms have ge: "buf_fa A + sizeof_long \<le> p" and m: "?d mod stride A = 0"
    and i: "i = ?d div stride A" and lt: "?d div stride A < FastArena_size"
    by (auto simp add: block_index_def split: if_splits)
  from m i have "?d = i * stride A" by auto
  with ge show "p = payload_addr A i" by (simp add: payload_addr_def)
  from i lt show "i < FastArena_size" by simp
qed

lemma payload_addr_inject:
  assumes "i < FastArena_size" and "j < FastArena_size"
    and "payload_addr A i = payload_addr A j"
  shows "i = j"
proof -
  have "Some i = block_index A (payload_addr A i)"
    using assms(1) by (simp add: block_index_payload_addr)
  also have "\<dots> = block_index A (payload_addr A j)"
    by (simp only: assms(3))
  also have "\<dots> = Some j"
    using assms(2) by (simp add: block_index_payload_addr)
  finally show ?thesis by simp
qed

lemma payload_addr_nonnull: "payload_addr A i \<noteq> 0"
  by (simp add: payload_addr_def sizeof_long_def)

lemma payload_addr_in_range:
  assumes "i < FastArena_size"
  shows "buf_fa A \<le> payload_addr A i"
    and "payload_addr A i \<le> buf_fa A + stride A * FastArena_size"
proof -
  show "buf_fa A \<le> payload_addr A i" by (simp add: payload_addr_def)
  from assms have "Suc i \<le> FastArena_size" by simp
  then have "stride A * Suc i \<le> stride A * FastArena_size" by (rule mult_le_mono2)
  moreover have "sizeof_long \<le> stride A" by (simp add: stride_def)
  ultimately show "payload_addr A i \<le> buf_fa A + stride A * FastArena_size"
    by (simp add: payload_addr_def algebra_simps)
qed

section \<open>FastArena: Allocate and Deallocate\<close>

lemma Allocate_Inl_iff:
  "Allocate A n = Inl bad_alloc \<longleftrightarrow> n_fa A < n \<or> (\<forall>i < FastArena_size. \<not> block_free A i)"
  by (simp add: Allocate_def Let_def block_free_def scan_exhausted_iff [symmetric])

lemma Allocate_InrI:
  assumes "n \<le> n_fa A" and "scan (hdr A) 0 < FastArena_size"
  shows "Allocate A n =
           Inr (payload_addr A (scan (hdr A) 0), A\<lparr> hdr := (hdr A)(scan (hdr A) 0 := 1) \<rparr>)"
  using assms scan_stops_free [of "hdr A" 0]
  by (simp add: Allocate_def Let_def IntAtomicIncrement_def)

lemma Allocate_cases:
  obtains (fail) "Allocate A n = Inl bad_alloc"
  | (ok) i where "i < FastArena_size" and "block_free A i"
      and "\<forall>j < i. \<not> block_free A j"
      and "Allocate A n = Inr (payload_addr A i, A\<lparr> hdr := (hdr A)(i := 1) \<rparr>)"
proof (cases "n \<le> n_fa A \<and> scan (hdr A) 0 < FastArena_size")
  case True
  let ?i = "scan (hdr A) 0"
  from True have "block_free A ?i"
    using scan_stops_free [of "hdr A" 0] by (simp add: block_free_def)
  moreover have "\<forall>j < ?i. \<not> block_free A j"
    using scan_skips_used [of 0 _ "hdr A"] by (simp add: block_free_def)
  ultimately show ?thesis using True Allocate_InrI [of n A] ok by blast
next
  case False
  then have "Allocate A n = Inl bad_alloc" by (auto simp add: Allocate_def Let_def)
  then show ?thesis by (rule fail)
qed

text \<open>
  C8. Allocate throws \<^verbatim>\<open>bad_alloc\<close> exactly when the request exceeds the chunk size
  \<open>n_fa\<close> or no block of the arena is free; in every other case it returns the payload
  address of a free block (the first one) and that block's marker becomes 1, in use, all
  else unchanged.
\<close>

theorem Allocate_fails_iff_oversize_or_exhausted:
  "(Allocate A n = Inl bad_alloc \<longleftrightarrow> n_fa A < n \<or> (\<forall>i < FastArena_size. \<not> block_free A i))
   \<and> (Allocate A n \<noteq> Inl bad_alloc \<longrightarrow>
        (\<exists>i < FastArena_size. block_free A i \<and> (\<forall>j < i. \<not> block_free A j)
           \<and> Allocate A n = Inr (payload_addr A i, A\<lparr> hdr := (hdr A)(i := 1) \<rparr>)
           \<and> \<not> block_free (A\<lparr> hdr := (hdr A)(i := 1) \<rparr>) i))"
proof (intro conjI impI)
  show "Allocate A n = Inl bad_alloc \<longleftrightarrow> n_fa A < n \<or> (\<forall>i < FastArena_size. \<not> block_free A i)"
    by (rule Allocate_Inl_iff)
next
  assume ok: "Allocate A n \<noteq> Inl bad_alloc"
  show "\<exists>i < FastArena_size. block_free A i \<and> (\<forall>j < i. \<not> block_free A j)
           \<and> Allocate A n = Inr (payload_addr A i, A\<lparr> hdr := (hdr A)(i := 1) \<rparr>)
           \<and> \<not> block_free (A\<lparr> hdr := (hdr A)(i := 1) \<rparr>) i"
  proof (cases A n rule: Allocate_cases)
    case fail
    with ok show ?thesis by simp
  next
    case (ok i)
    then show ?thesis by (auto simp add: block_free_def)
  qed
qed

theorem Allocate_fails_iff_oversize_or_exhausted_witness:
  "\<not> n_fa (FastArena_ctor 4096 3000) < 3000
   \<and> block_free (FastArena_ctor 4096 3000) 0
   \<and> Allocate (FastArena_ctor 4096 3000) 3000 \<noteq> Inl bad_alloc
   \<and> Allocate (FastArena_ctor 4096 3000) 3000
       = Inr (4100, (FastArena_ctor 4096 3000)\<lparr> hdr := (\<lambda>i. 0)(0 := 1) \<rparr>)
   \<and> Allocate (FastArena_ctor 4096 3000) 3001 = Inl bad_alloc
   \<and> Allocate ((FastArena_ctor 4096 3000)\<lparr> hdr := (\<lambda>i. 1) \<rparr>) 8 = Inl bad_alloc"
proof -
  let ?A = "FastArena_ctor 4096 3000"
  have n: "n_fa ?A = 3000" and h: "hdr ?A = (\<lambda>i. 0)"
    by (simp_all add: FastArena_ctor_def)
  have free: "block_free ?A 0"
    by (simp add: block_free_def h)
  have first: "\<forall>j < (0 :: nat). \<not> block_free ?A j"
    by simp
  have addr: "payload_addr ?A 0 = 4100"
    by (simp add: payload_addr_def FastArena_ctor_def sizeof_long_def)
  have ok: "Allocate ?A 3000 \<noteq> Inl bad_alloc"
    using Allocate_fails_iff_oversize_or_exhausted [of ?A 3000] free n
    by (auto simp add: FastArena_size_def)
  then obtain i where i: "i < FastArena_size" "block_free ?A i" "\<forall>j < i. \<not> block_free ?A j"
      "Allocate ?A 3000 = Inr (payload_addr ?A i, ?A\<lparr> hdr := (hdr ?A)(i := 1) \<rparr>)"
    using Allocate_fails_iff_oversize_or_exhausted [of ?A 3000] by blast
  from i(3) free have "i = 0" by (cases i) auto
  with i(4) addr h have res: "Allocate ?A 3000 = Inr (4100, ?A\<lparr> hdr := (\<lambda>i. 0)(0 := 1) \<rparr>)"
    by simp
  have big: "Allocate ?A 3001 = Inl bad_alloc"
    using Allocate_fails_iff_oversize_or_exhausted [of ?A 3001] n by simp
  have full: "Allocate (?A\<lparr> hdr := (\<lambda>i. 1) \<rparr>) 8 = Inl bad_alloc"
    using Allocate_fails_iff_oversize_or_exhausted [of "?A\<lparr> hdr := (\<lambda>i. 1) \<rparr>" 8]
    by (simp add: block_free_def)
  from n free ok res big full show ?thesis by simp
qed

lemma Deallocate_null: "Deallocate A 0 = Inr A"
  by (simp add: Deallocate_def)

lemma Deallocate_out_of_range:
  "p \<noteq> 0 \<Longrightarrow> p < buf_fa A \<or> buf_fa A + stride A * FastArena_size < p \<Longrightarrow>
   Deallocate A p = Inl bad_alloc"
  by (simp add: Deallocate_def)

lemma Deallocate_in_range:
  "buf_fa A \<le> p \<Longrightarrow> p \<le> buf_fa A + stride A * FastArena_size \<Longrightarrow>
   Deallocate A p \<noteq> Inl bad_alloc"
  by (auto simp add: Deallocate_def split: option.splits)

lemma Deallocate_payload_addr:
  assumes "i < FastArena_size"
  shows "Deallocate A (payload_addr A i) = Inr (A\<lparr> hdr := (hdr A)(i := hdr A i - 1) \<rparr>)"
proof -
  have "\<not> (payload_addr A i < buf_fa A \<or> buf_fa A + stride A * FastArena_size < payload_addr A i)"
    using payload_addr_in_range [OF assms, of A] by simp
  then show ?thesis
    using assms
    by (simp add: Deallocate_def payload_addr_nonnull block_index_payload_addr IntAtomicDecrement_def)
qed

text \<open>
  C9, as amended. Deallocate does nothing on the null pointer. On every other pointer it
  throws \<^verbatim>\<open>bad_alloc\<close> when the pointer is below the arena's first byte or above the
  address one past its last byte, and never inside that range. When the pointer is the
  payload address of a block whose marker is 1 (a block Allocate handed out and that has
  not been released since), the block is free afterwards and nothing else has changed.
\<close>

theorem Deallocate_releases_allocated_block:
  "Deallocate A 0 = Inr A
   \<and> (p \<noteq> 0 \<and> (p < buf_fa A \<or> buf_fa A + stride A * FastArena_size < p)
        \<longrightarrow> Deallocate A p = Inl bad_alloc)
   \<and> (buf_fa A \<le> p \<and> p \<le> buf_fa A + stride A * FastArena_size
        \<longrightarrow> Deallocate A p \<noteq> Inl bad_alloc)
   \<and> (i < FastArena_size \<and> hdr A i = 1
        \<longrightarrow> Deallocate A (payload_addr A i) = Inr (A\<lparr> hdr := (hdr A)(i := 0) \<rparr>)
            \<and> block_free (A\<lparr> hdr := (hdr A)(i := 0) \<rparr>) i)"
  using Deallocate_null [of A] Deallocate_out_of_range [of p A] Deallocate_in_range [of A p]
    Deallocate_payload_addr [of i A]
  by (auto simp add: block_free_def)

theorem Deallocate_releases_allocated_block_witness:
  "(4095 :: nat) \<noteq> 0 \<and> 4095 < buf_fa (FastArena_ctor 4096 3000)
   \<and> Deallocate (FastArena_ctor 4096 3000) 4095 = Inl bad_alloc
   \<and> buf_fa (FastArena_ctor 4096 3000) \<le> 4100
   \<and> 4100 \<le> buf_fa (FastArena_ctor 4096 3000) + stride (FastArena_ctor 4096 3000) * FastArena_size
   \<and> Deallocate (FastArena_ctor 4096 3000) 4100 \<noteq> Inl bad_alloc
   \<and> (0 :: nat) < FastArena_size
   \<and> hdr ((FastArena_ctor 4096 3000)\<lparr> hdr := (\<lambda>i. 0)(0 := 1) \<rparr>) 0 = 1
   \<and> payload_addr ((FastArena_ctor 4096 3000)\<lparr> hdr := (\<lambda>i. 0)(0 := 1) \<rparr>) 0 = 4100
   \<and> Deallocate ((FastArena_ctor 4096 3000)\<lparr> hdr := (\<lambda>i. 0)(0 := 1) \<rparr>) 4100
       = Inr ((FastArena_ctor 4096 3000)\<lparr> hdr := ((\<lambda>i. 0)(0 := 1))(0 := 0) \<rparr>)"
  using Deallocate_releases_allocated_block [of "FastArena_ctor 4096 3000" 4095 0]
    Deallocate_releases_allocated_block [of "FastArena_ctor 4096 3000" 4100 0]
    Deallocate_releases_allocated_block
      [of "(FastArena_ctor 4096 3000)\<lparr> hdr := (\<lambda>i. 0)(0 := 1) \<rparr>" 4100 0]
  by (simp add: FastArena_ctor_def FastArena_size_def payload_addr_def stride_def sizeof_long_def)

text \<open>
  The claim as stated fails on a pointer inside the range whose block is not in use. In a
  new arena with base address 4096, 4100 is the payload address of block 0, which is free.
  Deallocate accepts the pointer, returns normally, and leaves the marker at \<open>- 1\<close>: the
  block is not free afterwards, and Allocate will pass over it.
\<close>

theorem Deallocate_free_block_counterexample:
  "(4100 :: nat) \<noteq> 0
   \<and> block_index (FastArena_ctor 4096 3000) 4100 = Some 0
   \<and> block_free (FastArena_ctor 4096 3000) 0
   \<and> Deallocate (FastArena_ctor 4096 3000) 4100
       = Inr ((FastArena_ctor 4096 3000)\<lparr> hdr := (\<lambda>i. 0)(0 := - 1) \<rparr>)
   \<and> \<not> block_free ((FastArena_ctor 4096 3000)\<lparr> hdr := (\<lambda>i. 0)(0 := - 1) \<rparr>) 0
   \<and> Allocate ((FastArena_ctor 4096 3000)\<lparr> hdr := (\<lambda>i. 0)(0 := - 1) \<rparr>) 8
       = Inr (7104, (FastArena_ctor 4096 3000)\<lparr> hdr := (\<lambda>i. 0)(0 := - 1, 1 := 1) \<rparr>)"
  by (simp add: FastArena_ctor_def FastArena_size_def block_index_def block_free_def
      Deallocate_def Allocate_def payload_addr_def stride_def sizeof_long_def
      IntAtomicDecrement_def IntAtomicIncrement_def scan_step scan_stop)

section \<open>The growth policy\<close>

lemma round_len_eq_round_up4: "round_len k = round_up4 k"
proof (cases "k = 0")
  case True
  then show ?thesis by (simp add: round_len_def round_up4_def)
next
  case False
  then have "k + 3 = (k - 1) + 4" by simp
  then have "(k + 3) div 4 = (k - 1) div 4 + 1" by (simp only: div_add_self2)
  with False show ?thesis by (simp add: round_len_def round_up4_def)
qed

lemma round_len_0 [simp]: "round_len 0 = 0"
  by (simp add: round_len_def)

lemma round_len_ge: "k \<le> round_len k"
  unfolding round_len_def by (cases "k = 0") (simp, arith)

lemma round_len_less: "round_len k < k + 4"
  unfolding round_len_def by (cases "k = 0") (simp, arith)

lemma round_len_dvd: "4 dvd round_len k"
  by (simp add: round_len_def)

lemma round_len_eq_0_iff [simp]: "round_len k = 0 \<longleftrightarrow> k = 0"
  by (simp add: round_len_def)

lemma needed_size_ge: "n \<le> needed_size l n"
  by (simp add: needed_size_def)

lemma needed_size_0 [simp]: "needed_size 0 n = n"
  by (simp add: needed_size_def)

lemma memcpy_cells_0 [simp]: "memcpy_cells d s 0 = d"
  by (simp add: memcpy_cells_def)

lemma memcpy_0 [simp]: "memcpy d s 0 = d"
  by (simp add: memcpy_def split: option.splits)

lemma length_memcpy_cells:
  "k \<le> length s \<Longrightarrow> k \<le> length d \<Longrightarrow> length (memcpy_cells d s k) = length d"
  by (simp add: memcpy_cells_def)

lemma take_memcpy_cells:
  "k \<le> length s \<Longrightarrow> take k (memcpy_cells d s k) = take k s"
  by (simp add: memcpy_cells_def)

section \<open>StringBuf: Reserve and the cloning constructor\<close>

lemma Reserve_enough: "n \<le> len sb \<Longrightarrow> Reserve sb n nA = (sb, nA)"
  by (simp add: Reserve_def)

lemma Reserve_ctor:
  "Reserve StringBuf_ctor m nA =
     (if m = 0 then (StringBuf_ctor, nA)
      else (\<lparr> buf = Some (new_char_array (round_len m)), len = round_len m, used = 0, refs = 1 \<rparr>,
            nA + 1))"
  by (simp add: Reserve_def StringBuf_ctor_def Let_def)

lemma StringBuf_clone_eq:
  "StringBuf_clone X n nA =
     (if max (len X) n = 0
      then (\<lparr> buf = None, len = 0, used = used X, refs = 1 \<rparr>, nA)
      else (\<lparr> buf = Some (new_char_array (round_len (max (len X) n))),
              len = round_len (max (len X) n), used = used X, refs = 1 \<rparr>, nA + 1))"
  by (simp add: StringBuf_clone_def Reserve_ctor) (simp add: StringBuf_ctor_def)

text \<open>
  C1. The clone of a buffer that holds the two characters \<open>AB\<close> in a capacity of four:
  \<open>used\<close> is 2 and \<open>refs\<close> is 1, as the claim says, but no character has been copied. All
  four cells of the new array are as \<^verbatim>\<open>new char[4]\<close> left them, and reading the clone's
  first character yields an indeterminate value where the original yields \<open>A\<close>.
\<close>

theorem StringBuf_clone_copies_no_bytes:
  "StringBuf_clone \<lparr> buf = Some [Some CHR ''A'', Some CHR ''B'', None, None],
                     len = 4, used = 2, refs = 1 \<rparr> 0 0
     = (\<lparr> buf = Some [None, None, None, None], len = 4, used = 2, refs = 1 \<rparr>, 1)
   \<and> peek (buf (fst (StringBuf_clone \<lparr> buf = Some [Some CHR ''A'', Some CHR ''B'', None, None],
                                        len = 4, used = 2, refs = 1 \<rparr> 0 0))) 0 = Indeterminate
   \<and> peek (Some [Some CHR ''A'', Some CHR ''B'', None, None]) 0 = Chr CHR ''A''"
proof -
  have r: "round_len 4 = 4"
    by (simp add: round_len_def)
  have a: "new_char_array 4 = [None, None, None, None]"
    by (simp add: new_char_array_def numeral_eq_Suc)
  have c: "StringBuf_clone \<lparr> buf = Some [Some CHR ''A'', Some CHR ''B'', None, None],
                              len = 4, used = 2, refs = 1 \<rparr> 0 0
             = (\<lparr> buf = Some [None, None, None, None], len = 4, used = 2, refs = 1 \<rparr>, 1)"
    by (simp add: StringBuf_clone_eq r a)
  show ?thesis
    by (simp add: c peek_def)
qed

text \<open>
  C5, as amended. The clone's capacity is the larger of the original's capacity and the
  requested minimum, rounded up to the next multiple of 4: it is a multiple of 4, at least
  that maximum, and less than 4 above it. The factor 1.5 plays no part.
\<close>

theorem StringBuf_clone_capacity:
  "len (fst (StringBuf_clone X n nA)) = round_up4 (max (len X) n)
   \<and> 4 dvd len (fst (StringBuf_clone X n nA))
   \<and> max (len X) n \<le> len (fst (StringBuf_clone X n nA))
   \<and> len (fst (StringBuf_clone X n nA)) < max (len X) n + 4"
proof -
  have "len (fst (StringBuf_clone X n nA)) = round_len (max (len X) n)"
    by (simp add: StringBuf_clone_eq)
  then show ?thesis
    using round_len_eq_round_up4 [of "max (len X) n"] round_len_dvd [of "max (len X) n"]
      round_len_ge [of "max (len X) n"] round_len_less [of "max (len X) n"]
    by simp
qed

text \<open>
  The claim as stated fails on a buffer of capacity 4 cloned with no minimum, which is the
  clone the copy constructor of String makes of an unshareable buffer: the specification
  gives capacity 8, the clone has capacity 4.
\<close>

theorem StringBuf_clone_capacity_counterexample:
  "len (fst (StringBuf_clone \<lparr> buf = Some [Some CHR ''A'', Some CHR ''B'', None, None],
                               len = 4, used = 2, refs = 1 \<rparr> 0 0)) = 4
   \<and> claimed_clone_capacity 4 0 = 8"
proof -
  have "round_len 4 = 4"
    by (simp add: round_len_def)
  then have "len (fst (StringBuf_clone \<lparr> buf = Some [Some CHR ''A'', Some CHR ''B'', None, None],
                                         len = 4, used = 2, refs = 1 \<rparr> 0 0)) = 4"
    by (simp add: StringBuf_clone_eq)
  moreover have "claimed_clone_capacity 4 0 = 8"
    by (simp add: claimed_clone_capacity_def round_up4_def)
  ultimately show ?thesis by simp
qed

section \<open>Allocation returns a block that was free\<close>

lemma seq_Inr_iff:
  "seq r f = Inr y \<longleftrightarrow> (\<exists>x. r = Inr x \<and> f x = Inr y)"
  by (cases r) (simp_all add: seq_def)

lemma seq_Inl_iff:
  "seq r f = Inl e \<longleftrightarrow> r = Inl e \<or> (\<exists>x. r = Inr x \<and> f x = Inl e)"
  by (cases r) (simp_all add: seq_def)

lemma seq_Inr [simp]: "seq (Inr x) f = f x"
  by (simp add: seq_def)

lemma seq_Inl [simp]: "seq (Inl e) f = Inl e"
  by (simp add: seq_def)

lemma Allocate_InrD:
  assumes "Allocate A n = Inr (p, A')"
  shows "\<not> allocated A p" and "allocated A' p" and "p \<noteq> 0"
    and "\<And>q. q \<noteq> p \<Longrightarrow> allocated A' q = allocated A q"
    and "n_fa A' = n_fa A" and "buf_fa A' = buf_fa A"
proof -
  from assms obtain i where i: "i < FastArena_size" "block_free A i"
      and p: "p = payload_addr A i" and A': "A' = A\<lparr> hdr := (hdr A)(i := 1) \<rparr>"
    by (cases A n rule: Allocate_cases) auto
  have same: "block_index A' q = block_index A q" for q
    by (simp add: A' block_index_def stride_def)
  have bi: "block_index A p = Some i"
    using i(1) p by (simp add: block_index_payload_addr)
  show "\<not> allocated A p"
    using bi i(2) by (simp add: allocated_def)
  show "allocated A' p"
    using bi same [of p] by (simp add: allocated_def block_free_def A')
  show "p \<noteq> 0"
    by (simp add: p payload_addr_nonnull)
  show "n_fa A' = n_fa A" and "buf_fa A' = buf_fa A"
    by (simp_all add: A')
  show "allocated A' q = allocated A q" if "q \<noteq> p" for q
  proof (cases "block_index A q")
    case None
    then show ?thesis using same [of q] by (simp add: allocated_def)
  next
    case (Some j)
    then have "q = payload_addr A j" by (rule block_index_SomeD)
    with that p have "j \<noteq> i" by auto
    with Some show ?thesis
      using same [of q] by (simp add: allocated_def block_free_def A')
  qed
qed

lemma new_StringBuf_clone_InrD:
  assumes "new_StringBuf_clone st other n = Inr (p, st1)"
  shows "\<not> allocated (fa st) p" and "allocated (fa st1) p"
    and "\<And>q. q \<noteq> p \<Longrightarrow> allocated (fa st1) q = allocated (fa st) q"
    and "heap st1 = (heap st)(p \<mapsto> fst (StringBuf_clone other n (nAllocs st)))"
    and "nAllocs st1 = snd (StringBuf_clone other n (nAllocs st))"
    and "nCopies st1 = nCopies st" and "sizeof_StringBuf st1 = sizeof_StringBuf st"
proof -
  from assms obtain A where A: "Allocate (fa st) (sizeof_StringBuf st) = Inr (p, A)"
    and st1: "st1 = st\<lparr> fa := A, heap := (heap st)(p \<mapsto> fst (StringBuf_clone other n (nAllocs st))),
                         nAllocs := snd (StringBuf_clone other n (nAllocs st)) \<rparr>"
    by (auto simp add: new_StringBuf_clone_def split: sum.splits prod.splits)
  show "\<not> allocated (fa st) p" using Allocate_InrD(1) [OF A] .
  show "allocated (fa st1) p" using Allocate_InrD(2) [OF A] by (simp add: st1)
  show "allocated (fa st1) q = allocated (fa st) q" if "q \<noteq> p" for q
    using Allocate_InrD(4) [OF A that] by (simp add: st1)
  show "heap st1 = (heap st)(p \<mapsto> fst (StringBuf_clone other n (nAllocs st)))"
    and "nAllocs st1 = snd (StringBuf_clone other n (nAllocs st))"
    and "nCopies st1 = nCopies st" and "sizeof_StringBuf st1 = sizeof_StringBuf st"
    by (simp_all add: st1)
qed

lemma new_StringBuf_clone_Inl:
  "new_StringBuf_clone st other n = Inl e \<Longrightarrow> e = bad_alloc"
proof -
  assume a: "new_StringBuf_clone st other n = Inl e"
  then have "Allocate (fa st) (sizeof_StringBuf st) = Inl e"
    by (auto simp add: new_StringBuf_clone_def split: sum.splits prod.splits)
  then show "e = bad_alloc"
    by (cases "fa st" "sizeof_StringBuf st" rule: Allocate_cases) auto
qed

lemma new_StringBuf_InrD:
  assumes "new_StringBuf st = Inr (p, st1)"
  shows "\<not> allocated (fa st) p" and "allocated (fa st1) p"
    and "\<And>q. q \<noteq> p \<Longrightarrow> allocated (fa st1) q = allocated (fa st) q"
    and "heap st1 = (heap st)(p \<mapsto> StringBuf_ctor)"
    and "nAllocs st1 = nAllocs st" and "nCopies st1 = nCopies st"
proof -
  from assms obtain A where A: "Allocate (fa st) (sizeof_StringBuf st) = Inr (p, A)"
    and st1: "st1 = st\<lparr> fa := A, heap := (heap st)(p \<mapsto> StringBuf_ctor) \<rparr>"
    by (auto simp add: new_StringBuf_def split: sum.splits prod.splits)
  show "\<not> allocated (fa st) p" using Allocate_InrD(1) [OF A] .
  show "allocated (fa st1) p" using Allocate_InrD(2) [OF A] by (simp add: st1)
  show "allocated (fa st1) q = allocated (fa st) q" if "q \<noteq> p" for q
    using Allocate_InrD(4) [OF A that] by (simp add: st1)
  show "heap st1 = (heap st)(p \<mapsto> StringBuf_ctor)"
    and "nAllocs st1 = nAllocs st" and "nCopies st1 = nCopies st"
    by (simp_all add: st1)
qed

section \<open>EnsureUnique on an unshared and on a shared buffer\<close>

lemma IntAtomicCompare_pos [simp]: "0 < IntAtomicCompare i v \<longleftrightarrow> v < i"
  by (simp add: IntAtomicCompare_def)

lemma EnsureUnique_unshared:
  assumes "heap st s = Some sb" and "refs sb \<le> 1"
  shows "EnsureUnique v st s n =
           Inr (s, st\<lparr> heap := (heap st)(s \<mapsto> (fst (Reserve sb n (nAllocs st)))\<lparr> refs := 1 \<rparr>),
                        nAllocs := snd (Reserve sb n (nAllocs st)) \<rparr>)"
  using assms
  by (cases v)
    (simp_all add: EnsureUnique_def rc_EnsureUnique_def at_EnsureUnique_def split: prod.splits)

lemma EnsureUnique_shared_eq:
  assumes sb: "heap st s = Some sb" and shared: "1 < refs sb" and live: "allocated (fa st) s"
  shows "EnsureUnique v st s n =
           (case new_StringBuf_clone st sb n of
              Inl e \<Rightarrow> Inl e
            | Inr (d, st1) \<Rightarrow>
                Inr (d, st1\<lparr> heap := (heap st1)(s \<mapsto> sb\<lparr> refs := refs sb - 1 \<rparr>) \<rparr>))"
proof (cases "new_StringBuf_clone st sb n")
  case (Inl e)
  with sb shared show ?thesis
    by (cases v) (simp_all add: EnsureUnique_def rc_EnsureUnique_def at_EnsureUnique_def)
next
  case (Inr x)
  obtain d st1 where x: "x = (d, st1)" by (cases x)
  have ds: "d \<noteq> s"
    using new_StringBuf_clone_InrD(1) [OF Inr [unfolded x]] live by auto
  have "heap st1 = (heap st)(d \<mapsto> fst (StringBuf_clone sb n (nAllocs st)))"
    by (rule new_StringBuf_clone_InrD(4) [OF Inr [unfolded x]])
  with ds sb have s1: "heap st1 s = Some sb" by simp
  from sb shared Inr x s1 show ?thesis
    by (cases v)
      (simp_all add: EnsureUnique_def rc_EnsureUnique_def at_EnsureUnique_def
        IntAtomicDecrement_def Let_def)
qed

lemma EnsureUnique_shared:
  assumes sb: "heap st s = Some sb" and shared: "1 < refs sb" and live: "allocated (fa st) s"
    and run: "EnsureUnique v st s n = Inr (d, st')"
  shows "d \<noteq> s"
    and "heap st' = (heap st)(d \<mapsto> fst (StringBuf_clone sb n (nAllocs st)),
                              s \<mapsto> sb\<lparr> refs := refs sb - 1 \<rparr>)"
    and "allocated (fa st') s" and "allocated (fa st') d"
    and "nCopies st' = nCopies st"
proof -
  from run obtain st1 where
    cl: "new_StringBuf_clone st sb n = Inr (d, st1)"
    and st': "st' = st1\<lparr> heap := (heap st1)(s \<mapsto> sb\<lparr> refs := refs sb - 1 \<rparr>) \<rparr>"
    unfolding EnsureUnique_shared_eq [OF sb shared live]
    by (auto split: sum.splits prod.splits)
  have ds: "d \<noteq> s"
    using new_StringBuf_clone_InrD(1) [OF cl] live by auto
  have h1: "heap st1 = (heap st)(d \<mapsto> fst (StringBuf_clone sb n (nAllocs st)))"
    by (rule new_StringBuf_clone_InrD(4) [OF cl])
  show "d \<noteq> s" by (rule ds)
  show "heap st' = (heap st)(d \<mapsto> fst (StringBuf_clone sb n (nAllocs st)),
                             s \<mapsto> sb\<lparr> refs := refs sb - 1 \<rparr>)"
    by (simp add: st' h1)
  show "allocated (fa st') s"
    using new_StringBuf_clone_InrD(3) [OF cl, of s] ds live by (simp add: st')
  show "allocated (fa st') d"
    using new_StringBuf_clone_InrD(2) [OF cl] by (simp add: st')
  show "nCopies st' = nCopies st"
    using new_StringBuf_clone_InrD(6) [OF cl] by (simp add: st')
qed

lemma EnsureUnique_shared_Inl:
  assumes sb: "heap st s = Some sb" and shared: "1 < refs sb" and live: "allocated (fa st) s"
    and run: "EnsureUnique v st s n = Inl e"
  shows "e = bad_alloc"
proof -
  from run have "new_StringBuf_clone st sb n = Inl e"
    unfolding EnsureUnique_shared_eq [OF sb shared live]
    by (auto split: sum.splits prod.splits)
  then show ?thesis by (rule new_StringBuf_clone_Inl)
qed

section \<open>Copy construction\<close>

lemma String_copy_shareable:
  assumes "heap st s = Some sb" and "0 < refs sb"
  shows "String_copy v st s =
           Inr (s, st\<lparr> heap := (heap st)(s \<mapsto> sb\<lparr> refs := refs sb + 1 \<rparr>),
                        nCopies := nCopies st + 1 \<rparr>)"
  using assms
  by (cases v)
    (simp_all add: String_copy_def rc_copy_def at_copy_def IntAtomicIncrement_def)

lemma put2_at2_same: "at2 st p = Some g \<Longrightarrow> at2 (put2 st p g') p = Some g'"
  by (auto simp add: at2_def put2_def split: if_splits)

lemma put2_at2_other: "q \<noteq> p \<Longrightarrow> at2 (put2 st p g') q = at2 st q"
  by (cases p; cases q) (auto simp add: at2_def put2_def nth_list_update)

lemma put2_at2: "at2 st p = Some g \<Longrightarrow> at2 (put2 st p g') q = (if q = p then Some g' else at2 st q)"
  by (simp add: put2_at2_same put2_at2_other)

lemma put2_counters [simp]:
  "nCopies2 (put2 st p g) = nCopies2 st" "nAllocs2 (put2 st p g) = nAllocs2 st"
  "length (mem (put2 st p g)) = length (mem st)"
  by (simp_all add: put2_def)

lemma String2_copy_shareable:
  assumes "at2 st s = Some g" and "0 < REFS g"
  shows "String2_copy st s =
           Inr (s, (put2 st s (g\<lparr> REFS := REFS g + 1 \<rparr>))\<lparr> nCopies2 := nCopies2 st + 1 \<rparr>)"
  using assms by (simp add: String2_copy_def IntAtomicIncrement_def)

section \<open>Copying a shareable String\<close>

lemma n_fa_ctor_ge: "sz \<le> n_fa (FastArena_ctor base sz)"
proof (cases "sz = 0")
  case True
  then show ?thesis by (simp add: FastArena_ctor_def)
next
  case False
  then have "n_fa (FastArena_ctor base sz) = round_len sz"
    by (simp add: FastArena_ctor_def round_len_def)
  then show ?thesis by (simp add: round_len_ge)
qed

lemma String_ctor_init:
  "String_ctor (cow_init base sz) =
     Inr (base + 4,
          (cow_init base sz)\<lparr> fa := (FastArena_ctor base sz)\<lparr> hdr := (\<lambda>i. 0)(0 := 1) \<rparr>,
                                heap := (\<lambda>p. None)(base + 4 \<mapsto> StringBuf_ctor) \<rparr>)"
proof -
  let ?A = "FastArena_ctor base sz"
  have "scan (hdr ?A) 0 = 0"
    by (simp add: FastArena_ctor_def scan_fresh_arena)
  then have "Allocate ?A sz = Inr (payload_addr ?A 0, ?A\<lparr> hdr := (hdr ?A)(0 := 1) \<rparr>)"
    using Allocate_InrI [of sz ?A] n_fa_ctor_ge [of sz base] by (simp add: FastArena_size_def)
  moreover have "payload_addr ?A 0 = base + 4"
    by (simp add: payload_addr_def FastArena_ctor_def sizeof_long_def)
  moreover have "hdr ?A = (\<lambda>i. 0)"
    by (simp add: FastArena_ctor_def)
  ultimately show ?thesis
    by (simp add: String_ctor_def new_StringBuf_def cow_init_def)
qed

lemma allocated_after_ctor:
  "allocated ((FastArena_ctor base sz)\<lparr> hdr := (\<lambda>i. 0)(0 := 1) \<rparr>) (base + 4)"
proof -
  let ?A = "(FastArena_ctor base sz)\<lparr> hdr := (\<lambda>i. 0)(0 := 1) \<rparr>"
  have "payload_addr ?A 0 = base + 4"
    by (simp add: payload_addr_def FastArena_ctor_def sizeof_long_def)
  then have "block_index ?A (base + 4) = Some 0"
    using block_index_payload_addr [of 0 ?A] by (simp add: FastArena_size_def)
  then show ?thesis
    by (simp add: allocated_def block_free_def)
qed

text \<open>
  C6. In each of the five copy-on-write namespaces, copy-constructing from a String whose
  buffer has \<open>refs > 0\<close> returns normally; the copy's \<^verbatim>\<open>data_\<close> is the source's, the
  buffer's \<open>refs\<close> has grown by one and is otherwise as it was, every other buffer and the
  arena are untouched, \<open>nAllocs\<close> is unchanged and \<open>nCopies\<close> has grown by one.
\<close>

theorem copy_of_shareable_shares_buffer:
  "(heap st s = Some sb \<and> 0 < refs sb \<longrightarrow>
      (\<exists>st'. String_copy v st s = Inr (s, st')
         \<and> nAllocs st' = nAllocs st
         \<and> nCopies st' = nCopies st + 1
         \<and> heap st' = (heap st)(s \<mapsto> sb\<lparr> refs := refs sb + 1 \<rparr>)
         \<and> fa st' = fa st))
   \<and> (at2 st2 s2 = Some g \<and> 0 < REFS g \<longrightarrow>
      (\<exists>st2'. String2_copy st2 s2 = Inr (s2, st2')
         \<and> nAllocs2 st2' = nAllocs2 st2
         \<and> nCopies2 st2' = nCopies2 st2 + 1
         \<and> at2 st2' s2 = Some (g\<lparr> REFS := REFS g + 1 \<rparr>)
         \<and> (\<forall>q. q \<noteq> s2 \<longrightarrow> at2 st2' q = at2 st2 q)
         \<and> length (mem st2') = length (mem st2)))"
proof (intro conjI impI)
  assume "heap st s = Some sb \<and> 0 < refs sb"
  then show "\<exists>st'. String_copy v st s = Inr (s, st')
         \<and> nAllocs st' = nAllocs st
         \<and> nCopies st' = nCopies st + 1
         \<and> heap st' = (heap st)(s \<mapsto> sb\<lparr> refs := refs sb + 1 \<rparr>)
         \<and> fa st' = fa st"
    by (simp add: String_copy_shareable)
next
  assume a: "at2 st2 s2 = Some g \<and> 0 < REFS g"
  let ?st' = "(put2 st2 s2 (g\<lparr> REFS := REFS g + 1 \<rparr>))\<lparr> nCopies2 := nCopies2 st2 + 1 \<rparr>"
  have at: "at2 ?st' q = at2 (put2 st2 s2 (g\<lparr> REFS := REFS g + 1 \<rparr>)) q" for q
    by (simp add: at2_def)
  from a have "String2_copy st2 s2 = Inr (s2, ?st')"
    by (simp add: String2_copy_shareable)
  moreover have "at2 ?st' s2 = Some (g\<lparr> REFS := REFS g + 1 \<rparr>)"
    using a by (simp add: at put2_at2_same)
  moreover have "\<forall>q. q \<noteq> s2 \<longrightarrow> at2 ?st' q = at2 st2 q"
    by (simp add: at put2_at2_other)
  ultimately show "\<exists>st2'. String2_copy st2 s2 = Inr (s2, st2')
         \<and> nAllocs2 st2' = nAllocs2 st2
         \<and> nCopies2 st2' = nCopies2 st2 + 1
         \<and> at2 st2' s2 = Some (g\<lparr> REFS := REFS g + 1 \<rparr>)
         \<and> (\<forall>q. q \<noteq> s2 \<longrightarrow> at2 st2' q = at2 st2 q)
         \<and> length (mem st2') = length (mem st2)"
    by simp
qed

text \<open>
  The witness copies the one String of a namespace that has just constructed it: the
  state \<open>String_ctor\<close> returns from the initial state for \<open>COW_AtomicInt\<close>, and the state
  \<open>String2_ctor\<close> returns for \<open>COW_AtomicInt2\<close>.
\<close>

theorem copy_of_shareable_shares_buffer_witness:
  "String_ctor (cow_init 4096 16)
     = Inr (4100, (cow_init 4096 16)\<lparr> fa := (FastArena_ctor 4096 16)\<lparr> hdr := (\<lambda>i. 0)(0 := 1) \<rparr>,
                                       heap := (\<lambda>p. None)(4100 \<mapsto> StringBuf_ctor) \<rparr>)
   \<and> 0 < refs StringBuf_ctor
   \<and> String_copy COW_AtomicInt
        ((cow_init 4096 16)\<lparr> fa := (FastArena_ctor 4096 16)\<lparr> hdr := (\<lambda>i. 0)(0 := 1) \<rparr>,
                              heap := (\<lambda>p. None)(4100 \<mapsto> StringBuf_ctor) \<rparr>) 4100
     = Inr (4100, (cow_init 4096 16)\<lparr> fa := (FastArena_ctor 4096 16)\<lparr> hdr := (\<lambda>i. 0)(0 := 1) \<rparr>,
                                       heap := (\<lambda>p. None)(4100 \<mapsto> StringBuf_ctor\<lparr> refs := 2 \<rparr>),
                                       nCopies := 1 \<rparr>)
   \<and> String2_ctor cow2_init
     = (1, \<lparr> mem = [Some \<lparr> LEN = 0, USED = 0, REFS = 1, BUF = [] \<rparr>], nCopies2 = 0, nAllocs2 = 1 \<rparr>)
   \<and> String2_copy \<lparr> mem = [Some \<lparr> LEN = 0, USED = 0, REFS = 1, BUF = [] \<rparr>],
                     nCopies2 = 0, nAllocs2 = 1 \<rparr> 1
     = Inr (1, \<lparr> mem = [Some \<lparr> LEN = 0, USED = 0, REFS = 2, BUF = [] \<rparr>],
                 nCopies2 = 1, nAllocs2 = 1 \<rparr>)"
proof -
  let ?S = "(cow_init 4096 16)\<lparr> fa := (FastArena_ctor 4096 16)\<lparr> hdr := (\<lambda>i. 0)(0 := 1) \<rparr>,
                                 heap := (\<lambda>p. None)(4100 \<mapsto> StringBuf_ctor) \<rparr>"
  let ?g = "\<lparr> LEN = 0, USED = 0, REFS = 1, BUF = [] \<rparr>"
  let ?T = "\<lparr> mem = [Some ?g], nCopies2 = 0, nAllocs2 = 1 \<rparr>"
  have ctor: "String_ctor (cow_init 4096 16) = Inr (4100, ?S)"
    using String_ctor_init [of 4096 16] by simp
  have h: "heap ?S 4100 = Some StringBuf_ctor \<and> 0 < refs StringBuf_ctor"
    by (simp add: StringBuf_ctor_def)
  have g: "at2 ?T 1 = Some ?g \<and> 0 < REFS ?g"
    by (simp add: at2_def)
  note inst = copy_of_shareable_shares_buffer
    [where st = ?S and s = 4100 and sb = StringBuf_ctor and v = COW_AtomicInt
       and ?st2.0 = ?T and ?s2.0 = 1 and g = ?g]
  from inst h have "\<exists>st'. String_copy COW_AtomicInt ?S 4100 = Inr (4100, st')"
    by blast
  then obtain st' where 1: "String_copy COW_AtomicInt ?S 4100 = Inr (4100, st')" ..
  from inst g have "\<exists>st2'. String2_copy ?T 1 = Inr (1, st2')"
    by blast
  then obtain st2' where 2: "String2_copy ?T 1 = Inr (1, st2')" ..
  have "String_copy COW_AtomicInt ?S 4100
          = Inr (4100, ?S\<lparr> heap := (heap ?S)(4100 \<mapsto> StringBuf_ctor\<lparr> refs := refs StringBuf_ctor + 1 \<rparr>),
                           nCopies := nCopies ?S + 1 \<rparr>)"
    using h by (intro String_copy_shareable) simp_all
  then have "String_copy COW_AtomicInt ?S 4100
          = Inr (4100, ?S\<lparr> heap := (\<lambda>p. None)(4100 \<mapsto> StringBuf_ctor\<lparr> refs := 2 \<rparr>),
                           nCopies := 1 \<rparr>)"
    using 1 by (simp add: StringBuf_ctor_def cow_init_def)
  moreover have "String2_ctor cow2_init = (1, ?T)"
    by (simp add: String2_ctor_def new_chars_def cow2_init_def)
  moreover have "String2_copy ?T 1
      = Inr (1, (put2 ?T 1 (?g\<lparr> REFS := REFS ?g + 1 \<rparr>))\<lparr> nCopies2 := nCopies2 ?T + 1 \<rparr>)"
    using g by (intro String2_copy_shareable) simp_all
  then have "String2_copy ?T 1
      = Inr (1, \<lparr> mem = [Some \<lparr> LEN = 0, USED = 0, REFS = 2, BUF = [] \<rparr>],
                  nCopies2 = 1, nAllocs2 = 1 \<rparr>)"
    using 2 by (simp add: put2_def)
  ultimately show ?thesis
    using ctor h by simp
qed

section \<open>Mutating one of two Strings that share a buffer\<close>

lemma put_char_clone:
  "\<exists>sb'. put_char (fst (StringBuf_clone sb (used sb + 1) nA)) c = Inr sb'"
proof -
  let ?m = "max (len sb) (used sb + 1)"
  have "used sb < round_len ?m"
    using round_len_ge [of ?m] by simp
  then show ?thesis
    by (simp add: StringBuf_clone_eq put_char_def new_char_array_def)
qed

lemma Append_shared:
  assumes sb: "heap st s = Some sb" and shared: "1 < refs sb" and live: "allocated (fa st) s"
    and run: "Append v st s c = Inr (d, st')"
  shows "d \<noteq> s" and "heap st' s = Some (sb\<lparr> refs := refs sb - 1 \<rparr>)"
proof -
  from run sb obtain st1 sbd sb' where
    eu: "EnsureUnique v st s (used sb + 1) = Inr (d, st1)"
    and st': "st' = st1\<lparr> heap := (heap st1)(d \<mapsto> sb') \<rparr>"
    by (auto simp add: Append_def seq_Inr_iff split: option.splits)
  note u = EnsureUnique_shared [OF sb shared live eu]
  show "d \<noteq> s" by (rule u(1))
  show "heap st' s = Some (sb\<lparr> refs := refs sb - 1 \<rparr>)"
    using u(1) by (simp add: st' u(2))
qed

lemma Append_shared_Inl:
  assumes sb: "heap st s = Some sb" and shared: "1 < refs sb" and live: "allocated (fa st) s"
    and run: "Append v st s c = Inl e"
  shows "e = bad_alloc"
proof (cases "EnsureUnique v st s (used sb + 1)")
  case (Inl e')
  with run sb have "e = e'" by (simp add: Append_def)
  with Inl show ?thesis
    using EnsureUnique_shared_Inl [OF sb shared live] by simp
next
  case (Inr x)
  obtain d st1 where x: "x = (d, st1)" by (cases x)
  note u = EnsureUnique_shared [OF sb shared live Inr [unfolded x]]
  have "heap st1 d = Some (fst (StringBuf_clone sb (used sb + 1) (nAllocs st)))"
    using u(1) by (simp add: u(2))
  with run sb Inr x put_char_clone [of sb "nAllocs st" c] have False
    by (auto simp add: Append_def)
  then show ?thesis ..
qed

lemma index_shared:
  assumes sb: "heap st s = Some sb" and shared: "1 < refs sb" and live: "allocated (fa st) s"
    and run: "index v st s n = Inr (d, st', r)"
  shows "d \<noteq> s" and "heap st' s = Some (sb\<lparr> refs := refs sb - 1 \<rparr>)" and "r = (d, n)"
proof -
  from run sb obtain st1 x where
    eu: "EnsureUnique v st s (len sb) = Inr (d, st1)"
    and st': "st' = st1\<lparr> heap := (heap st1)(d \<mapsto> x) \<rparr>"
    and r: "r = (d, n)"
    by (auto simp add: index_def EnsureUnshareable_def seq_Inr_iff split: option.splits)
  note u = EnsureUnique_shared [OF sb shared live eu]
  show "d \<noteq> s" by (rule u(1))
  show "heap st' s = Some (sb\<lparr> refs := refs sb - 1 \<rparr>)"
    using u(1) by (simp add: st' u(2))
  show "r = (d, n)" by (rule r)
qed

lemma index_shared_Inl:
  assumes sb: "heap st s = Some sb" and shared: "1 < refs sb" and live: "allocated (fa st) s"
    and run: "index v st s n = Inl e"
  shows "e = bad_alloc"
proof (cases "EnsureUnique v st s (len sb)")
  case (Inl e')
  with run sb have "e = e'" by (simp add: index_def EnsureUnshareable_def)
  with Inl show ?thesis
    using EnsureUnique_shared_Inl [OF sb shared live] by simp
next
  case (Inr x)
  obtain d st1 where x: "x = (d, st1)" by (cases x)
  note u = EnsureUnique_shared [OF sb shared live Inr [unfolded x]]
  have "heap st1 d = Some (fst (StringBuf_clone sb (len sb) (nAllocs st)))"
    using u(1) by (simp add: u(2))
  with run sb Inr x have False
    by (simp add: index_def EnsureUnshareable_def)
  then show ?thesis ..
qed

lemma store_other:
  "store st r x = Inr st'' \<Longrightarrow> fst r \<noteq> s \<Longrightarrow> heap st'' s = heap st s"
  by (auto simp add: store_def split: option.splits if_splits)

lemma same_buffer_same_content:
  assumes "heap st' s = Some (sb\<lparr> refs := k \<rparr>)" and "heap st s = Some sb"
  shows "Length st' s = Length st s" and "load st' (s, i) = load st (s, i)"
  using assms by (simp_all add: Length_def load_def)

subsection \<open>The same in COW_AtomicInt2\<close>

lemma at2_SomeD: "at2 st p = Some g \<Longrightarrow> 0 < p \<and> p \<le> length (mem st)"
  by (simp add: at2_def split: if_splits)

lemma at2_counters [simp]:
  "at2 (st\<lparr> nAllocs2 := a \<rparr>) = at2 st" "at2 (st\<lparr> nCopies2 := b \<rparr>) = at2 st"
  by (simp_all add: at2_def fun_eq_iff)

lemma at2_new_chars:
  "at2 (snd (new_chars st g)) q = (if q = Suc (length (mem st)) then Some g else at2 st q)"
  by (auto simp add: at2_def new_chars_def nth_append)

lemma fst_new_chars [simp]: "fst (new_chars st g) = Suc (length (mem st))"
  by (simp add: new_chars_def)

lemma Clone_eq:
  "at2 st p = Some g \<Longrightarrow>
   Clone st p n = Inr (new_chars (st\<lparr> nAllocs2 := nAllocs2 st + 1 \<rparr>) (cloned g n))"
  by (simp add: Clone_def)

lemma EnsureUnique2_shared:
  assumes g: "at2 st s = Some g" and shared: "1 < REFS g"
  shows "\<exists>st'. EnsureUnique2 st s n = Inr (Suc (length (mem st)), st')
           \<and> at2 st' s = Some (g\<lparr> REFS := REFS g - 1 \<rparr>)
           \<and> at2 st' (Suc (length (mem st))) = Some (cloned g n)"
proof -
  let ?d = "Suc (length (mem st))"
  let ?st1 = "snd (new_chars (st\<lparr> nAllocs2 := nAllocs2 st + 1 \<rparr>) (cloned g n))"
  let ?st' = "put2 ?st1 s (g\<lparr> REFS := REFS g - 1 \<rparr>)"
  from at2_SomeD [OF g] have ds: "s \<noteq> ?d" by simp
  have cl: "Clone st s n = Inr (?d, ?st1)"
    using Clone_eq [OF g, of n] by (simp add: new_chars_def)
  have s1: "at2 ?st1 s = Some g"
    using ds g by (simp add: at2_new_chars)
  have d1: "at2 ?st1 ?d = Some (cloned g n)"
    by (simp add: at2_new_chars)
  have "EnsureUnique2 st s n = Inr (?d, ?st')"
    using g shared cl s1
    by (simp add: EnsureUnique2_def IntAtomicDecrement_def Let_def)
  moreover have "at2 ?st' s = Some (g\<lparr> REFS := REFS g - 1 \<rparr>)"
    using s1 by (rule put2_at2_same)
  moreover have "at2 ?st' ?d = Some (cloned g n)"
    using ds d1 by (simp add: put2_at2_other)
  ultimately show ?thesis by blast
qed

lemma Append2_shared:
  assumes g: "at2 st s = Some g" and shared: "1 < REFS g"
    and run: "Append2 st s c = Inr (d, st')"
  shows "d \<noteq> s" and "at2 st' s = Some (g\<lparr> REFS := REFS g - 1 \<rparr>)"
proof -
  from EnsureUnique2_shared [OF g shared, of "USED g + 1"] obtain st1 where
    eu: "EnsureUnique2 st s (USED g + 1) = Inr (Suc (length (mem st)), st1)"
    and s1: "at2 st1 s = Some (g\<lparr> REFS := REFS g - 1 \<rparr>)"
    and d1: "at2 st1 (Suc (length (mem st))) = Some (cloned g (USED g + 1))"
    by blast
  from at2_SomeD [OF g] have ds: "s \<noteq> Suc (length (mem st))" by simp
  from run g eu d1 obtain g' where d: "d = Suc (length (mem st))" and st': "st' = put2 st1 d g'"
    by (auto simp add: Append2_def seq_Inr_iff)
  show "d \<noteq> s" using ds d by simp
  show "at2 st' s = Some (g\<lparr> REFS := REFS g - 1 \<rparr>)"
    using ds d s1 by (simp add: st' put2_at2_other)
qed

lemma index2_shared:
  assumes g: "at2 st s = Some g" and shared: "1 < REFS g"
    and run: "index2 st s n = Inr (d, st', r)"
  shows "d \<noteq> s" and "at2 st' s = Some (g\<lparr> REFS := REFS g - 1 \<rparr>)" and "r = (d, n)"
proof -
  from EnsureUnique2_shared [OF g shared, of "LEN g"] obtain st1 where
    eu: "EnsureUnique2 st s (LEN g) = Inr (Suc (length (mem st)), st1)"
    and s1: "at2 st1 s = Some (g\<lparr> REFS := REFS g - 1 \<rparr>)"
    and d1: "at2 st1 (Suc (length (mem st))) = Some (cloned g (LEN g))"
    by blast
  from at2_SomeD [OF g] have ds: "s \<noteq> Suc (length (mem st))" by simp
  from run g eu d1 have d: "d = Suc (length (mem st))"
    and st': "st' = put2 st1 d ((cloned g (LEN g))\<lparr> REFS := - 1 \<rparr>)" and r: "r = (d, n)"
    by (auto simp add: index2_def EnsureUnshareable2_def seq_Inr_iff)
  show "d \<noteq> s" using ds d by simp
  show "at2 st' s = Some (g\<lparr> REFS := REFS g - 1 \<rparr>)"
    using ds d s1 by (simp add: st' put2_at2_other)
  show "r = (d, n)" by (rule r)
qed

lemma store2_other:
  "store2 st r x = Inr st'' \<Longrightarrow> fst r \<noteq> s \<Longrightarrow> at2 st'' s = at2 st s"
  by (auto simp add: store2_def put2_at2_other split: option.splits if_splits)

lemma same_glom_same_content:
  assumes "at2 st' s = Some (g\<lparr> REFS := k \<rparr>)" and "at2 st s = Some g"
  shows "Length2 st' s = Length2 st s" and "load2 st' (s, i) = load2 st (s, i)"
  using assms by (simp_all add: Length2_def load2_def)

text \<open>
  C4. In each of the five copy-on-write namespaces: let two Strings share the buffer at
  \<open>s\<close> (its \<open>refs\<close> exceeds 1; in the four namespaces that allocate StringBuf from the arena
  the buffer's block is marked in use). When \<^verbatim>\<open>Append\<close> or \<^verbatim>\<open>operator[]\<close> is applied to one of
  them and returns, that String has moved to another buffer, and what the other String
  observes at \<open>s\<close> is as before: \<^verbatim>\<open>Length\<close> and the value of every character cell. The same
  holds after a write through the reference \<^verbatim>\<open>operator[]\<close> returned. In the four arena
  namespaces the only way either operation can fail is \<^verbatim>\<open>bad_alloc\<close> from the arena.
\<close>

theorem mutation_leaves_sharing_String_unchanged:
  "(heap st s = Some sb \<and> 1 < refs sb \<and> allocated (fa st) s \<longrightarrow>
      (\<forall>d st'. Append v st s c = Inr (d, st') \<longrightarrow>
         d \<noteq> s \<and> Length st' s = Length st s \<and> (\<forall>i. load st' (s, i) = load st (s, i)))
      \<and> (\<forall>d st' r. index v st s n = Inr (d, st', r) \<longrightarrow>
         d \<noteq> s \<and> r = (d, n) \<and> Length st' s = Length st s
         \<and> (\<forall>i. load st' (s, i) = load st (s, i))
         \<and> (\<forall>x st''. store st' r x = Inr st'' \<longrightarrow>
               Length st'' s = Length st s \<and> (\<forall>i. load st'' (s, i) = load st (s, i))))
      \<and> (\<forall>e. Append v st s c = Inl e \<or> index v st s n = Inl e \<longrightarrow> e = bad_alloc))
   \<and> (at2 st2 s2 = Some g \<and> 1 < REFS g \<longrightarrow>
      (\<forall>d st'. Append2 st2 s2 c = Inr (d, st') \<longrightarrow>
         d \<noteq> s2 \<and> Length2 st' s2 = Length2 st2 s2
         \<and> (\<forall>i. load2 st' (s2, i) = load2 st2 (s2, i)))
      \<and> (\<forall>d st' r. index2 st2 s2 n = Inr (d, st', r) \<longrightarrow>
         d \<noteq> s2 \<and> r = (d, n) \<and> Length2 st' s2 = Length2 st2 s2
         \<and> (\<forall>i. load2 st' (s2, i) = load2 st2 (s2, i))
         \<and> (\<forall>x st''. store2 st' r x = Inr st'' \<longrightarrow>
               Length2 st'' s2 = Length2 st2 s2 \<and> (\<forall>i. load2 st'' (s2, i) = load2 st2 (s2, i)))))"
proof (intro conjI impI allI; (elim conjE)?)
  fix d st'
  assume sb: "heap st s = Some sb" and sh: "1 < refs sb" and live: "allocated (fa st) s"
    and run: "Append v st s c = Inr (d, st')"
  note a = Append_shared [OF sb sh live run]
  show "d \<noteq> s" by (rule a(1))
  show "Length st' s = Length st s"
    by (rule same_buffer_same_content(1) [OF a(2) sb])
  show "load st' (s, i) = load st (s, i)" for i
    by (rule same_buffer_same_content(2) [OF a(2) sb])
next
  fix d st' r
  assume sb: "heap st s = Some sb" and sh: "1 < refs sb" and live: "allocated (fa st) s"
    and run: "index v st s n = Inr (d, st', r)"
  note a = index_shared [OF sb sh live run]
  show "d \<noteq> s" by (rule a(1))
  show "r = (d, n)" by (rule a(3))
  show "Length st' s = Length st s"
    by (rule same_buffer_same_content(1) [OF a(2) sb])
  show "load st' (s, i) = load st (s, i)" for i
    by (rule same_buffer_same_content(2) [OF a(2) sb])
  {
    fix x st''
    assume w: "store st' r x = Inr st''"
    have "heap st'' s = heap st' s"
      using w a(1) by (intro store_other [of st' r x st'' s]) (simp_all add: a(3))
    with a(2) have h: "heap st'' s = Some (sb\<lparr> refs := refs sb - 1 \<rparr>)" by simp
    show "Length st'' s = Length st s"
      by (rule same_buffer_same_content(1) [OF h sb])
    show "load st'' (s, i) = load st (s, i)" for i
      by (rule same_buffer_same_content(2) [OF h sb])
  }
next
  fix e
  assume sb: "heap st s = Some sb" and sh: "1 < refs sb" and live: "allocated (fa st) s"
    and f: "Append v st s c = Inl e \<or> index v st s n = Inl e"
  then show "e = bad_alloc"
    using Append_shared_Inl [OF sb sh live] index_shared_Inl [OF sb sh live] by blast
next
  fix d st'
  assume g: "at2 st2 s2 = Some g" and sh: "1 < REFS g"
    and run: "Append2 st2 s2 c = Inr (d, st')"
  note a = Append2_shared [OF g sh run]
  show "d \<noteq> s2" by (rule a(1))
  show "Length2 st' s2 = Length2 st2 s2"
    by (rule same_glom_same_content(1) [OF a(2) g])
  show "load2 st' (s2, i) = load2 st2 (s2, i)" for i
    by (rule same_glom_same_content(2) [OF a(2) g])
next
  fix d st' r
  assume g: "at2 st2 s2 = Some g" and sh: "1 < REFS g"
    and run: "index2 st2 s2 n = Inr (d, st', r)"
  note a = index2_shared [OF g sh run]
  show "d \<noteq> s2" by (rule a(1))
  show "r = (d, n)" by (rule a(3))
  show "Length2 st' s2 = Length2 st2 s2"
    by (rule same_glom_same_content(1) [OF a(2) g])
  show "load2 st' (s2, i) = load2 st2 (s2, i)" for i
    by (rule same_glom_same_content(2) [OF a(2) g])
  {
    fix x st''
    assume w: "store2 st' r x = Inr st''"
    have "at2 st'' s2 = at2 st' s2"
      using w a(1) by (intro store2_other [of st' r x st'' s2]) (simp_all add: a(3))
    with a(2) have h: "at2 st'' s2 = Some (g\<lparr> REFS := REFS g - 1 \<rparr>)" by simp
    show "Length2 st'' s2 = Length2 st2 s2"
      by (rule same_glom_same_content(1) [OF h g])
    show "load2 st'' (s2, i) = load2 st2 (s2, i)" for i
      by (rule same_glom_same_content(2) [OF h g])
  }
qed

section \<open>Evaluating runs on concrete states\<close>

lemma replicate_numeral: "replicate (numeral k) x = x # replicate (numeral k - 1) x"
  by (simp add: numeral_eq_Suc)

lemmas arena_eval =
  Allocate_def Deallocate_def scan_step scan_stop FastArena_size_def payload_addr_def
  block_index_def block_free_def allocated_def stride_def sizeof_long_def
  FastArena_ctor_def IntAtomicIncrement_def IntAtomicDecrement_def IntAtomicCompare_def

lemmas buffer_eval =
  StringBuf_ctor_def StringBuf_Clear_def StringBuf_clone_def Reserve_def needed_size_def
  round_len_def new_char_array_def replicate_numeral memcpy_def memcpy_cells_def
  put_char_def peek_def Let_def

lemmas cow_eval =
  cow_init_def new_StringBuf_def new_StringBuf_clone_def delete_StringBuf_def
  String_ctor_def String_dtor_def String_copy_def String_Clear_def EnsureUnique_def
  EnsureUnshareable_def Append_def Length_def index_def load_def store_def
  rc_dtor_def rc_copy_def rc_Clear_def rc_EnsureUnique_def
  at_dtor_def at_copy_def at_Clear_def at_EnsureUnique_def var_def

lemmas cow2_eval =
  cow2_init_def at2_def put2_def new_chars_def delete_chars_def String2_ctor_def
  String2_dtor_def cloned_def Clone_def String2_copy_def String2_Clear_def Reserve2_def
  EnsureUnique2_def EnsureUnshareable2_def put_char2_def Append2_def Length2_def
  index2_def load2_def store2_def var_def

lemma run_shared_pair:
  "run COW_Unsafe (cow_init 4096 16, [], []) [New, App 0 CHR ''X'', Copy 0]
     = Inr (\<lparr> fa = \<lparr> n_fa = 16, buf_fa = 4096, hdr = (\<lambda>i. 0)(0 := 1) \<rparr>,
              heap = (\<lambda>p. None)(4100 \<mapsto> \<lparr> buf = Some [Some CHR ''X'', None, None, None],
                                             len = 4, used = 1, refs = 2 \<rparr>),
              nCopies = 1, nAllocs = 1, sizeof_StringBuf = 16 \<rparr>,
            [Some 4100, Some 4100], [])"
  by (simp add: arena_eval buffer_eval cow_eval)

lemma run2_shared_pair:
  "run2 (cow2_init, [], []) [New, App 0 CHR ''X'', Copy 0]
     = Inr (\<lparr> mem = [None, Some \<lparr> LEN = 4, USED = 1, REFS = 2,
                                   BUF = [Some CHR ''X'', None, None, None] \<rparr>],
              nCopies2 = 1, nAllocs2 = 2 \<rparr>,
            [Some 2, Some 2], [])"
  by (simp add: arena_eval buffer_eval cow2_eval)

text \<open>
  The witness for C4 runs \<open>New, Append X, Copy\<close> in COW_Unsafe and in COW_AtomicInt2,
  which leaves two Strings on one buffer that holds \<open>X\<close>, and then appends \<open>Y\<close> to one of
  them, or indexes it and writes \<open>Z\<close> through the reference.
\<close>

theorem mutation_leaves_sharing_String_unchanged_witness:
  "(let S = \<lparr> fa = \<lparr> n_fa = 16, buf_fa = 4096, hdr = (\<lambda>i. 0)(0 := 1) \<rparr>,
              heap = (\<lambda>p. None)(4100 \<mapsto> \<lparr> buf = Some [Some CHR ''X'', None, None, None],
                                             len = 4, used = 1, refs = 2 \<rparr>),
              nCopies = 1, nAllocs = 1, sizeof_StringBuf = 16 \<rparr>
    in run COW_Unsafe (cow_init 4096 16, [], []) [New, App 0 CHR ''X'', Copy 0]
         = Inr (S, [Some 4100, Some 4100], [])
       \<and> heap S 4100 = Some \<lparr> buf = Some [Some CHR ''X'', None, None, None],
                                len = 4, used = 1, refs = 2 \<rparr>
       \<and> allocated (fa S) 4100
       \<and> (case Append COW_Unsafe S 4100 CHR ''Y'' of
             Inl e \<Rightarrow> False
           | Inr (d, st') \<Rightarrow>
               d = 4120 \<and> Length st' d = Inr 2
               \<and> Length st' 4100 = Inr 1 \<and> load st' (4100, 0) = Chr CHR ''X'')
       \<and> (case index COW_Unsafe S 4100 0 of
             Inl e \<Rightarrow> False
           | Inr (d, st', r) \<Rightarrow>
               (case store st' r CHR ''Z'' of
                  Inl e \<Rightarrow> False
                | Inr st'' \<Rightarrow>
                    load st'' r = Chr CHR ''Z''
                    \<and> Length st'' 4100 = Inr 1 \<and> load st'' (4100, 0) = Chr CHR ''X'')))
   \<and> (let T = \<lparr> mem = [None, Some \<lparr> LEN = 4, USED = 1, REFS = 2,
                                      BUF = [Some CHR ''X'', None, None, None] \<rparr>],
                 nCopies2 = 1, nAllocs2 = 2 \<rparr>
       in run2 (cow2_init, [], []) [New, App 0 CHR ''X'', Copy 0] = Inr (T, [Some 2, Some 2], [])
          \<and> (case Append2 T 2 CHR ''Y'' of
                Inl e \<Rightarrow> False
              | Inr (d, st') \<Rightarrow>
                  d = 3 \<and> Length2 st' d = Inr 2
                  \<and> Length2 st' 2 = Inr 1 \<and> load2 st' (2, 0) = Chr CHR ''X'')
          \<and> (case index2 T 2 0 of
                Inl e \<Rightarrow> False
              | Inr (d, st', r) \<Rightarrow>
                  (case store2 st' r CHR ''Z'' of
                     Inl e \<Rightarrow> False
                   | Inr st'' \<Rightarrow>
                       load2 st'' r = Chr CHR ''Z''
                       \<and> Length2 st'' 2 = Inr 1 \<and> load2 st'' (2, 0) = Chr CHR ''X'')))"
proof -
  let ?sb = "\<lparr> buf = Some [Some CHR ''X'', None, None, None], len = 4, used = 1, refs = 2 \<rparr>"
  let ?S = "\<lparr> fa = \<lparr> n_fa = 16, buf_fa = 4096, hdr = (\<lambda>i. 0)(0 := 1) \<rparr>,
             heap = (\<lambda>p. None)(4100 \<mapsto> ?sb), nCopies = 1, nAllocs = 1, sizeof_StringBuf = 16 \<rparr>"
  let ?g = "\<lparr> LEN = 4, USED = 1, REFS = 2, BUF = [Some CHR ''X'', None, None, None] \<rparr>"
  let ?T = "\<lparr> mem = [None, Some ?g], nCopies2 = 1, nAllocs2 = 2 \<rparr>"
  have sb: "heap ?S 4100 = Some ?sb" and sh: "1 < refs ?sb" by simp_all
  have live: "allocated (fa ?S) 4100" by (simp add: arena_eval)
  have g: "at2 ?T 2 = Some ?g" and gsh: "1 < REFS ?g" by (simp_all add: at2_def)
  obtain d1 A1 where ap: "Append COW_Unsafe ?S 4100 CHR ''Y'' = Inr (d1, A1)"
    and d1: "d1 = 4120" and l1: "Length A1 d1 = Inr 2"
    by (simp add: arena_eval buffer_eval cow_eval)
  obtain d2 A2 r2 where ix: "index COW_Unsafe ?S 4100 0 = Inr (d2, A2, r2)"
    by (simp add: arena_eval buffer_eval cow_eval)
  obtain A3 where wr: "store A2 r2 CHR ''Z'' = Inr A3" and z: "load A3 r2 = Chr CHR ''Z''"
    using ix by (auto simp add: arena_eval buffer_eval cow_eval)
  obtain e1 B1 where ap2: "Append2 ?T 2 CHR ''Y'' = Inr (e1, B1)"
    and e1: "e1 = 3" and m1: "Length2 B1 e1 = Inr 2"
    by (simp add: arena_eval buffer_eval cow2_eval)
  obtain e2 B2 q2 where ix2: "index2 ?T 2 0 = Inr (e2, B2, q2)"
    by (simp add: arena_eval buffer_eval cow2_eval)
  obtain B3 where wr2: "store2 B2 q2 CHR ''Z'' = Inr B3" and z2: "load2 B3 q2 = Chr CHR ''Z''"
    using ix2 by (auto simp add: arena_eval buffer_eval cow2_eval)
  note inst = mutation_leaves_sharing_String_unchanged
    [where st = ?S and s = 4100 and sb = ?sb and v = COW_Unsafe and c = "CHR ''Y''" and n = 0
       and ?st2.0 = ?T and ?s2.0 = 2 and g = ?g]
  have old: "Length ?S 4100 = Inr 1" "load ?S (4100, 0) = Chr CHR ''X''"
    by (simp_all add: Length_def load_def peek_def)
  have old2: "Length2 ?T 2 = Inr 1" "load2 ?T (2, 0) = Chr CHR ''X''"
    by (simp_all add: Length2_def load2_def at2_def peek_def)
  from inst sb sh live ap have a: "Length A1 4100 = Length ?S 4100"
      "load A1 (4100, 0) = load ?S (4100, 0)"
    by blast+
  from inst sb sh live ix wr have b: "Length A3 4100 = Length ?S 4100"
      "load A3 (4100, 0) = load ?S (4100, 0)"
    by blast+
  from inst g gsh ap2 have a2: "Length2 B1 2 = Length2 ?T 2"
      "load2 B1 (2, 0) = load2 ?T (2, 0)"
    by blast+
  from inst g gsh ix2 wr2 have b2: "Length2 B3 2 = Length2 ?T 2"
      "load2 B3 (2, 0) = load2 ?T (2, 0)"
    by blast+
  have c1: "case Append COW_Unsafe ?S 4100 CHR ''Y'' of
             Inl e \<Rightarrow> False
           | Inr (d, st') \<Rightarrow>
               d = 4120 \<and> Length st' d = Inr 2
               \<and> Length st' 4100 = Inr 1 \<and> load st' (4100, 0) = Chr CHR ''X''"
    unfolding ap using d1 l1 a old by simp
  have c2: "case index COW_Unsafe ?S 4100 0 of
             Inl e \<Rightarrow> False
           | Inr (d, st', r) \<Rightarrow>
               (case store st' r CHR ''Z'' of
                  Inl e \<Rightarrow> False
                | Inr st'' \<Rightarrow>
                    load st'' r = Chr CHR ''Z''
                    \<and> Length st'' 4100 = Inr 1 \<and> load st'' (4100, 0) = Chr CHR ''X'')"
    unfolding ix using wr z b old by simp
  have c3: "case Append2 ?T 2 CHR ''Y'' of
                Inl e \<Rightarrow> False
              | Inr (d, st') \<Rightarrow>
                  d = 3 \<and> Length2 st' d = Inr 2
                  \<and> Length2 st' 2 = Inr 1 \<and> load2 st' (2, 0) = Chr CHR ''X''"
    unfolding ap2 using e1 m1 a2 old2 by simp
  have c4: "case index2 ?T 2 0 of
                Inl e \<Rightarrow> False
              | Inr (d, st', r) \<Rightarrow>
                  (case store2 st' r CHR ''Z'' of
                     Inl e \<Rightarrow> False
                   | Inr st'' \<Rightarrow>
                       load2 st'' r = Chr CHR ''Z''
                       \<and> Length2 st'' 2 = Inr 1 \<and> load2 st'' (2, 0) = Chr CHR ''X'')"
    unfolding ix2 using wr2 z2 b2 old2 by simp
  from run_shared_pair run2_shared_pair sb live c1 c2 c3 c4 show ?thesis
    unfolding Let_def by blast
qed

section \<open>Operations on one buffer leave another live buffer alone\<close>

lemma Deallocate_other:
  assumes "Deallocate A t = Inr A'" and "t \<noteq> s"
  shows "allocated A' s = allocated A s"
proof (cases "t = 0")
  case True
  with assms show ?thesis by (simp add: Deallocate_def)
next
  case False
  with assms obtain i where i: "block_index A t = Some i"
    and A': "A' = A\<lparr> hdr := (hdr A)(i := IntAtomicDecrement (hdr A i)) \<rparr>"
    by (auto simp add: Deallocate_def split: if_splits option.splits)
  have same: "block_index A' q = block_index A q" for q
    by (simp add: A' block_index_def stride_def)
  show ?thesis
  proof (cases "block_index A s")
    case None
    then show ?thesis using same [of s] by (simp add: allocated_def)
  next
    case (Some j)
    have "t = payload_addr A i" using i by (rule block_index_SomeD)
    moreover have "s = payload_addr A j" using Some by (rule block_index_SomeD)
    ultimately have "j \<noteq> i" using assms(2) by auto
    with Some show ?thesis
      using same [of s] by (simp add: allocated_def block_free_def A')
  qed
qed

lemma delete_StringBuf_other:
  assumes "delete_StringBuf st t = Inr st'" and "t \<noteq> s"
  shows "heap st' s = heap st s" and "allocated (fa st') s = allocated (fa st) s"
proof -
  show "heap st' s = heap st s"
    using assms by (auto simp add: delete_StringBuf_def split: if_splits option.splits sum.splits)
  show "allocated (fa st') s = allocated (fa st) s"
  proof (cases "t = 0")
    case True
    with assms show ?thesis by (simp add: delete_StringBuf_def)
  next
    case False
    with assms obtain A where "Deallocate (fa st) t = Inr A" and "fa st' = A"
      by (auto simp add: delete_StringBuf_def split: option.splits sum.splits)
    then show ?thesis using Deallocate_other [of "fa st" t A s] assms(2) by simp
  qed
qed

lemma String_ctor_other:
  assumes "String_ctor st = Inr (d, st')" and "allocated (fa st) s"
  shows "d \<noteq> s" and "heap st' s = heap st s" and "allocated (fa st') s"
proof -
  note n = new_StringBuf_InrD [OF assms(1) [unfolded String_ctor_def]]
  show ds: "d \<noteq> s" using n(1) assms(2) by auto
  show "heap st' s = heap st s" using ds by (simp add: n(4))
  show "allocated (fa st') s" using n(3) [of s] ds assms(2) by simp
qed

lemma heap_upd_other: "t \<noteq> s \<Longrightarrow> heap (st\<lparr> heap := (heap st)(t \<mapsto> x) \<rparr>) s = heap st s"
  by simp

lemma rc_EnsureUnique_other:
  assumes run: "rc_EnsureUnique st t n = Inr (d, st')" and live: "allocated (fa st) s"
    and ts: "t \<noteq> s"
  shows "d \<noteq> s \<and> heap st' s = heap st s \<and> allocated (fa st') s"
proof -
  from run obtain sb where sb: "heap st t = Some sb"
    by (auto simp add: rc_EnsureUnique_def split: option.splits)
  show ?thesis
  proof (cases "1 < refs sb")
    case True
    with run sb obtain st1 sb1 where cl: "new_StringBuf_clone st sb n = Inr (d, st1)"
      and st': "st' = st1\<lparr> heap := (heap st1)(t \<mapsto> sb1) \<rparr>"
      by (auto simp add: rc_EnsureUnique_def seq_Inr_iff split: option.splits)
    note c = new_StringBuf_clone_InrD [OF cl]
    have ds: "d \<noteq> s" using c(1) live by auto
    then show ?thesis
      using ts c(3) [of s] live by (simp add: st' c(4))
  next
    case False
    with run sb ts live show ?thesis
      by (auto simp add: rc_EnsureUnique_def split: prod.splits)
  qed
qed

lemma at_EnsureUnique_other:
  assumes run: "at_EnsureUnique st t n = Inr (d, st')" and live: "allocated (fa st) s"
    and ts: "t \<noteq> s"
  shows "d \<noteq> s \<and> heap st' s = heap st s \<and> allocated (fa st') s"
proof -
  from run obtain sb where sb: "heap st t = Some sb"
    by (auto simp add: at_EnsureUnique_def split: option.splits)
  show ?thesis
  proof (cases "1 < refs sb")
    case True
    with run sb obtain p st1 where cl: "new_StringBuf_clone st sb n = Inr (p, st1)"
      by (auto simp add: at_EnsureUnique_def seq_Inr_iff)
    note c = new_StringBuf_clone_InrD [OF cl]
    have ps: "p \<noteq> s" using c(1) live by auto
    have s1: "heap st1 s = heap st s" using ps by (simp add: c(4))
    have a1: "allocated (fa st1) s" using c(3) [of s] ps live by simp
    from run sb True cl obtain sb1 where sb1: "heap st1 t = Some sb1"
      by (auto simp add: at_EnsureUnique_def split: option.splits)
    let ?st2 = "st1\<lparr> heap := (heap st1)(t \<mapsto> sb1\<lparr> refs := refs sb1 - 1 \<rparr>) \<rparr>"
    show ?thesis
    proof (cases "refs sb1 - 1 < 1")
      case False
      with run sb True cl sb1 have "d = p" and "st' = ?st2"
        by (auto simp add: at_EnsureUnique_def IntAtomicDecrement_def Let_def)
      with ps ts s1 a1 show ?thesis by simp
    next
      case less: True
      with run sb True cl sb1 obtain st3 sb3 where
        del: "delete_StringBuf ?st2 p = Inr st3"
        and d: "d = t" and st': "st' = st3\<lparr> heap := (heap st3)(t \<mapsto> sb3) \<rparr>"
        by (auto simp add: at_EnsureUnique_def IntAtomicDecrement_def Let_def seq_Inr_iff
            split: option.splits)
      note dl = delete_StringBuf_other [OF del ps]
      from dl ts s1 a1 show ?thesis by (simp add: d st')
    qed
  next
    case False
    with run sb ts live show ?thesis
      by (auto simp add: at_EnsureUnique_def split: prod.splits)
  qed
qed

lemma EnsureUnique_other:
  assumes "EnsureUnique v st t n = Inr (d, st')" and "allocated (fa st) s" and "t \<noteq> s"
  shows "d \<noteq> s" and "heap st' s = heap st s" and "allocated (fa st') s"
  using assms rc_EnsureUnique_other [of st t n d st' s] at_EnsureUnique_other [of st t n d st' s]
  by (cases v; simp add: EnsureUnique_def)+

lemma Append_other:
  assumes "Append v st t c = Inr (d, st')" and "allocated (fa st) s" and "t \<noteq> s"
  shows "d \<noteq> s" and "heap st' s = heap st s" and "allocated (fa st') s"
proof -
  from assms(1) obtain sb0 where sb0: "heap st t = Some sb0"
    by (auto simp add: Append_def split: option.splits)
  from assms(1) sb0 have "\<exists>st1 sb'. EnsureUnique v st t (used sb0 + 1) = Inr (d, st1)
      \<and> st' = st1\<lparr> heap := (heap st1)(d \<mapsto> sb') \<rparr>"
    by (auto simp add: Append_def seq_Inr_iff split: option.splits)
  then obtain st1 sb' where
    eu: "EnsureUnique v st t (used sb0 + 1) = Inr (d, st1)"
    and st': "st' = st1\<lparr> heap := (heap st1)(d \<mapsto> sb') \<rparr>"
    by blast
  note e = EnsureUnique_other [OF eu assms(2,3)]
  show "d \<noteq> s" by (rule e(1))
  show "heap st' s = heap st s" using e(1,2) by (simp add: st')
  show "allocated (fa st') s" using e(3) by (simp add: st')
qed

lemma index_other:
  assumes "index v st t n = Inr (d, st', r)" and "allocated (fa st) s" and "t \<noteq> s"
  shows "d \<noteq> s" and "heap st' s = heap st s" and "allocated (fa st') s"
proof -
  from assms(1) obtain sb0 where sb0: "heap st t = Some sb0"
    by (auto simp add: index_def split: option.splits)
  from assms(1) sb0 have "\<exists>st1 x. EnsureUnique v st t (len sb0) = Inr (d, st1)
      \<and> st' = st1\<lparr> heap := (heap st1)(d \<mapsto> x) \<rparr>"
    by (auto simp add: index_def EnsureUnshareable_def seq_Inr_iff split: option.splits)
  then obtain st1 x where
    eu: "EnsureUnique v st t (len sb0) = Inr (d, st1)"
    and st': "st' = st1\<lparr> heap := (heap st1)(d \<mapsto> x) \<rparr>"
    by blast
  note e = EnsureUnique_other [OF eu assms(2,3)]
  show "d \<noteq> s" by (rule e(1))
  show "heap st' s = heap st s" using e(1,2) by (simp add: st')
  show "allocated (fa st') s" using e(3) by (simp add: st')
qed

lemma String_dtor_other:
  assumes "String_dtor v st t = Inr st'" and "t \<noteq> s"
  shows "heap st' s = heap st s" and "allocated (fa st') s = allocated (fa st) s"
proof -
  from assms(1) obtain sb where sb: "heap st t = Some sb"
    by (cases v) (auto simp add: String_dtor_def rc_dtor_def at_dtor_def split: option.splits)
  let ?st1 = "st\<lparr> heap := (heap st)(t \<mapsto> sb\<lparr> refs := refs sb - 1 \<rparr>) \<rparr>"
  from assms(1) sb have c: "st' = ?st1 \<or> delete_StringBuf ?st1 t = Inr st'"
    by (cases v)
      (auto simp add: String_dtor_def rc_dtor_def at_dtor_def IntAtomicDecrement_def Let_def
        split: if_splits)
  show "heap st' s = heap st s"
    using c delete_StringBuf_other(1) [of ?st1 t st' s] assms(2) by auto
  show "allocated (fa st') s = allocated (fa st) s"
    using c delete_StringBuf_other(2) [of ?st1 t st' s] assms(2) by auto
qed

lemma String_Clear_other:
  assumes "String_Clear v st t = Inr (d, st')" and "allocated (fa st) s" and "t \<noteq> s"
  shows "d \<noteq> s" and "heap st' s = heap st s" and "allocated (fa st') s"
proof -
  from assms(1) obtain sb where sb: "heap st t = Some sb"
    by (cases v) (auto simp add: String_Clear_def rc_Clear_def at_Clear_def split: option.splits)
  let ?st1 = "st\<lparr> heap := (heap st)(t \<mapsto> sb\<lparr> refs := refs sb - 1 \<rparr>) \<rparr>"
  from assms(1) sb have
    c: "(d = t \<and> st' = st\<lparr> heap := (heap st)(t \<mapsto> (StringBuf_Clear (sb\<lparr> refs := refs sb - 1 \<rparr>))\<lparr> refs := 1 \<rparr>) \<rparr>)
        \<or> (d = t \<and> st' = st\<lparr> heap := (heap st)(t \<mapsto> (StringBuf_Clear sb)\<lparr> refs := 1 \<rparr>) \<rparr>)
        \<or> new_StringBuf ?st1 = Inr (d, st')"
    by (cases v)
      (auto simp add: String_Clear_def rc_Clear_def at_Clear_def IntAtomicDecrement_def Let_def
        split: if_splits)
  have live1: "allocated (fa ?st1) s" using assms(2) by simp
  have h1: "heap ?st1 s = heap st s" using assms(3) by simp
  from c show "d \<noteq> s"
    using new_StringBuf_InrD(1) [of ?st1 d st'] live1 assms(3) by auto
  from c show "heap st' s = heap st s"
    using new_StringBuf_InrD(1,4) [of ?st1 d st'] live1 h1 assms(3) by auto
  from c show "allocated (fa st') s"
    using new_StringBuf_InrD(1) [of ?st1 d st'] new_StringBuf_InrD(3) [of ?st1 d st' s]
      live1 assms(2) by auto
qed

lemma String_copy_other:
  assumes run: "String_copy v st t = Inr (d, st')" and live: "allocated (fa st) s"
    and ts: "t \<noteq> s"
  shows "d \<noteq> s \<and> heap st' s = heap st s \<and> allocated (fa st') s"
proof -
  from run obtain sb where sb: "heap st t = Some sb"
    by (cases v) (auto simp add: String_copy_def rc_copy_def at_copy_def split: option.splits)
  from run sb have
    "(d = t \<and> st' = st\<lparr> heap := (heap st)(t \<mapsto> sb\<lparr> refs := refs sb + 1 \<rparr>),
                            nCopies := nCopies st + 1 \<rparr>)
        \<or> (\<exists>st1. new_StringBuf_clone st sb 0 = Inr (d, st1)
                  \<and> st' = st1\<lparr> nCopies := nCopies st1 + 1 \<rparr>)"
    by (cases v)
      (auto simp add: String_copy_def rc_copy_def at_copy_def IntAtomicIncrement_def seq_Inr_iff
        split: if_splits)
  then consider (share) "d = t"
      "st' = st\<lparr> heap := (heap st)(t \<mapsto> sb\<lparr> refs := refs sb + 1 \<rparr>), nCopies := nCopies st + 1 \<rparr>"
    | (clone) st1 where "new_StringBuf_clone st sb 0 = Inr (d, st1)"
      "st' = st1\<lparr> nCopies := nCopies st1 + 1 \<rparr>"
    by blast
  then show ?thesis
  proof cases
    case share
    then show ?thesis using ts live by simp
  next
    case clone
    note n = new_StringBuf_clone_InrD [OF clone(1)]
    have ds: "d \<noteq> s" using n(1) live by auto
    then show ?thesis using n(3) [of s] live by (simp add: clone(2) n(4))
  qed
qed

section \<open>An unshareable buffer under the operations of its own String\<close>

lemma EnsureUnshareable_marks:
  assumes "EnsureUnshareable v st s n = Inr (d, st')"
  shows "\<exists>sb'. heap st' d = Some sb' \<and> refs sb' = - 1"
  using assms
  by (auto simp add: EnsureUnshareable_def seq_Inr_iff split: option.splits)

lemma String_copy_unshareable:
  assumes sb: "heap st s = Some sb" and neg: "refs sb \<le> 0" and live: "allocated (fa st) s"
    and run: "String_copy v st s = Inr (d, st')"
  shows "d \<noteq> s" and "heap st' s = Some sb" and "allocated (fa st') s"
    and "heap st' d = Some (fst (StringBuf_clone sb 0 (nAllocs st)))"
    and "nCopies st' = nCopies st + 1"
proof -
  from run sb neg obtain st1 where cl: "new_StringBuf_clone st sb 0 = Inr (d, st1)"
    and st': "st' = st1\<lparr> nCopies := nCopies st1 + 1 \<rparr>"
    by (cases v)
      (auto simp add: String_copy_def rc_copy_def at_copy_def seq_Inr_iff)
  note n = new_StringBuf_clone_InrD [OF cl]
  show ds: "d \<noteq> s" using n(1) live by auto
  show "heap st' s = Some sb" using ds sb by (simp add: st' n(4))
  show "allocated (fa st') s" using n(3) [of s] ds live by (simp add: st')
  show "heap st' d = Some (fst (StringBuf_clone sb 0 (nAllocs st)))" by (simp add: st' n(4))
  show "nCopies st' = nCopies st + 1" by (simp add: st' n(6))
qed

lemma index_unshareable:
  assumes sb: "heap st s = Some sb" and neg: "refs sb = - 1"
  shows "index v st s n = Inr (s, st\<lparr> heap := (heap st)(s \<mapsto> sb) \<rparr>, (s, n))"
proof -
  have "EnsureUnique v st s (len sb) =
          Inr (s, st\<lparr> heap := (heap st)(s \<mapsto> sb\<lparr> refs := 1 \<rparr>), nAllocs := nAllocs st \<rparr>)"
    using EnsureUnique_unshared [of st s sb v "len sb"] sb neg by (simp add: Reserve_enough)
  moreover have "sb\<lparr> refs := - 1 \<rparr> = sb" using neg by simp
  ultimately show ?thesis
    using sb by (simp add: index_def EnsureUnshareable_def)
qed

lemma Append_unshared:
  assumes sb: "heap st s = Some sb" and one: "refs sb \<le> 1"
    and run: "Append v st s c = Inr (d, st')"
  shows "d = s" and "\<exists>sb'. heap st' s = Some sb' \<and> refs sb' = 1"
proof -
  have eu: "EnsureUnique v st s (used sb + 1) =
          Inr (s, st\<lparr> heap := (heap st)(s \<mapsto> (fst (Reserve sb (used sb + 1) (nAllocs st)))\<lparr> refs := 1 \<rparr>),
                      nAllocs := snd (Reserve sb (used sb + 1) (nAllocs st)) \<rparr>)"
    using sb one by (rule EnsureUnique_unshared)
  from run sb have "seq (EnsureUnique v st s (used sb + 1))
            (\<lambda>(d, st1).
               case heap st1 d of
                 None \<Rightarrow> Inl invalid_pointer
               | Some sb \<Rightarrow>
                   seq (put_char sb c) (\<lambda>sb'. Inr (d, st1\<lparr> heap := (heap st1)(d \<mapsto> sb') \<rparr>)))
          = Inr (d, st')"
    by (simp add: Append_def)
  then have r: "\<exists>sb'. d = s \<and> heap st' s = Some sb'
      \<and> put_char ((fst (Reserve sb (used sb + 1) (nAllocs st)))\<lparr> refs := 1 \<rparr>) c = Inr sb'"
    unfolding eu by (auto simp add: seq_Inr_iff)
  then show "d = s" by blast
  from r show "\<exists>sb'. heap st' s = Some sb' \<and> refs sb' = 1"
    by (auto simp add: put_char_def split: option.splits if_splits)
qed

lemma String_Clear_unshared:
  assumes sb: "heap st s = Some sb" and one: "refs sb \<le> 1"
  shows "String_Clear v st s =
           Inr (s, st\<lparr> heap := (heap st)(s \<mapsto> (StringBuf_Clear sb)\<lparr> refs := 1 \<rparr>) \<rparr>)"
  using assms
  by (cases v)
    (simp_all add: String_Clear_def rc_Clear_def at_Clear_def IntAtomicDecrement_def
      StringBuf_Clear_def)

section \<open>The unshareable state persists along a run\<close>

lemma var_Inr_iff: "var vs i = Inr t \<longleftrightarrow> i < length vs \<and> vs ! i = Some t"
  by (auto simp add: var_def split: option.splits)

lemma sole_owner_append: "sole_owner vs j s \<Longrightarrow> d \<noteq> s \<Longrightarrow> sole_owner (vs @ [Some d]) j s"
  by (auto simp add: sole_owner_def nth_append)

lemma sole_owner_update:
  assumes "sole_owner vs j s" and "i \<noteq> j" and "x \<noteq> Some s"
  shows "sole_owner (vs[i := x]) j s"
proof -
  have "vs[i := x] ! k \<noteq> Some s" if "k < length vs" and "k \<noteq> j" for k
    using that assms by (cases "k = i") (simp_all add: sole_owner_def)
  then show ?thesis
    using assms by (simp add: sole_owner_def)
qed

lemma sole_owner_same: "sole_owner vs j s \<Longrightarrow> sole_owner (vs[j := Some s]) j s"
  by (auto simp add: sole_owner_def nth_list_update)

lemma sole_owner_other: "sole_owner vs j s \<Longrightarrow> var vs i = Inr t \<Longrightarrow> i \<noteq> j \<Longrightarrow> t \<noteq> s"
  by (auto simp add: sole_owner_def var_Inr_iff)

lemma sole_owner_self: "sole_owner vs j s \<Longrightarrow> var vs j = Inr t \<Longrightarrow> t = s"
  by (auto simp add: sole_owner_def var_Inr_iff)

lemma unshareable_atI:
  "heap st' s = heap st s \<Longrightarrow> allocated (fa st') s \<Longrightarrow> unshareable_at st s \<Longrightarrow> unshareable_at st' s"
  by (simp add: unshareable_at_def)

lemma step_keeps_unshareable:
  assumes u: "unshareable_at st s" and o: "sole_owner vs j s" and nr: "\<not> resets j x"
    and run: "step v (st, vs, tr) x = Inr (st', vs', tr')"
  shows "unshareable_at st' s \<and> sole_owner vs' j s \<and> heap st' s = heap st s"
proof -
  from u obtain sb where live: "allocated (fa st) s" and sb: "heap st s = Some sb"
    and neg: "refs sb = - 1"
    by (auto simp add: unshareable_at_def split: option.splits)
  show ?thesis
  proof (cases x)
    case New
    with run obtain d where c: "String_ctor st = Inr (d, st')" and vs': "vs' = vs @ [Some d]"
      by (auto simp add: seq_Inr_iff)
    note f = String_ctor_other [OF c live]
    show ?thesis
      using f u o by (simp add: vs' sole_owner_append unshareable_atI)
  next
    case (Copy i)
    with run obtain t d where t: "var vs i = Inr t"
      and c: "String_copy v st t = Inr (d, st')" and vs': "vs' = vs @ [Some d]"
      by (auto simp add: seq_Inr_iff)
    have "d \<noteq> s \<and> heap st' s = heap st s \<and> allocated (fa st') s"
    proof (cases "t = s")
      case True
      with c sb neg live show ?thesis
        using String_copy_unshareable [of st s sb v d st'] by simp
    next
      case False
      with c live show ?thesis by (intro String_copy_other)
    qed
    then show ?thesis
      using u o by (simp add: vs' sole_owner_append unshareable_atI)
  next
    case (Destroy i)
    with nr have ij: "i \<noteq> j" by simp
    from Destroy run obtain t where t: "var vs i = Inr t"
      and c: "String_dtor v st t = Inr st'" and vs': "vs' = vs[i := None]"
      by (auto simp add: seq_Inr_iff)
    have ts: "t \<noteq> s" using o t ij by (rule sole_owner_other)
    note f = String_dtor_other [OF c ts]
    show ?thesis
      using f u o ij live by (simp add: vs' sole_owner_update unshareable_atI)
  next
    case (Clear i)
    with nr have ij: "i \<noteq> j" by simp
    from Clear run obtain t d where t: "var vs i = Inr t"
      and c: "String_Clear v st t = Inr (d, st')" and vs': "vs' = vs[i := Some d]"
      by (auto simp add: seq_Inr_iff)
    have ts: "t \<noteq> s" using o t ij by (rule sole_owner_other)
    note f = String_Clear_other [OF c live ts]
    show ?thesis
      using f u o ij by (simp add: vs' sole_owner_update unshareable_atI)
  next
    case (App i c)
    with nr have ij: "i \<noteq> j" by simp
    from App run obtain t d where t: "var vs i = Inr t"
      and c: "Append v st t c = Inr (d, st')" and vs': "vs' = vs[i := Some d]"
      by (auto simp add: seq_Inr_iff)
    have ts: "t \<noteq> s" using o t ij by (rule sole_owner_other)
    note f = Append_other [OF c live ts]
    show ?thesis
      using f u o ij by (simp add: vs' sole_owner_update unshareable_atI)
  next
    case (Idx i n)
    with run obtain t d r where t: "var vs i = Inr t"
      and c: "index v st t n = Inr (d, st', r)" and vs': "vs' = vs[i := Some d]"
      by (auto simp add: seq_Inr_iff)
    show ?thesis
    proof (cases "i = j")
      case True
      with o t have "t = s" by (simp add: sole_owner_self)
      with c have "d = s" and "st' = st\<lparr> heap := (heap st)(s \<mapsto> sb) \<rparr>"
        by (auto simp add: index_unshareable [OF sb neg])
      with True u o sb show ?thesis
        by (simp add: vs' sole_owner_same unshareable_at_def)
    next
      case False
      have ts: "t \<noteq> s" using o t False by (rule sole_owner_other)
      note f = index_other [OF c live ts]
      show ?thesis
        using f u o False by (simp add: vs' sole_owner_update unshareable_atI)
    qed
  next
    case (Len i)
    with run have "st' = st" and "vs' = vs"
      by (auto simp add: seq_Inr_iff)
    with u o show ?thesis by simp
  qed
qed

lemma run_keeps_unshareable:
  assumes "unshareable_at st s" and "sole_owner vs j s" and "\<forall>x \<in> set ops. \<not> resets j x"
    and "run v (st, vs, tr) ops = Inr (st', vs', tr')"
  shows "unshareable_at st' s \<and> sole_owner vs' j s \<and> heap st' s = heap st s"
  using assms
proof (induction ops arbitrary: st vs tr)
  case Nil
  then show ?case by simp
next
  case (Cons x ops)
  from Cons.prems(4) obtain st1 vs1 tr1 where
    s1: "step v (st, vs, tr) x = Inr (st1, vs1, tr1)"
    and r1: "run v (st1, vs1, tr1) ops = Inr (st', vs', tr')"
    by (auto simp add: seq_Inr_iff)
  from Cons.prems(3) have nr: "\<not> resets j x" and rest: "\<forall>y \<in> set ops. \<not> resets j y"
    by simp_all
  note k = step_keeps_unshareable [OF Cons.prems(1,2) nr s1]
  from Cons.IH [of st1 vs1 tr1] k rest r1
  have "unshareable_at st' s \<and> sole_owner vs' j s \<and> heap st' s = heap st1 s" by blast
  with k show ?case by simp
qed

section \<open>The same for COW_AtomicInt2\<close>

lemma at2_put2:
  "at2 (put2 st p g') q = (if q = p \<and> 0 < p \<and> p \<le> length (mem st) then Some g' else at2 st q)"
proof (cases "0 < p")
  case False
  then show ?thesis by (simp add: put2_def at2_def)
next
  case True
  show ?thesis
  proof (cases "0 < q \<and> q \<le> length (mem st)")
    case False
    with True show ?thesis by (auto simp add: put2_def at2_def)
  next
    case q: True
    with True have "(p - 1 = q - 1) = (p = q)" by auto
    with True q show ?thesis
      by (auto simp add: put2_def at2_def nth_list_update)
  qed
qed

lemma at2_delete_chars:
  assumes "delete_chars st p = Inr st'"
  shows "at2 st' q = (if q = p then None else at2 st q)"
proof (cases "p = 0")
  case True
  with assms show ?thesis by (auto simp add: delete_chars_def at2_def)
next
  case False
  with assms have st': "st' = st\<lparr> mem := (mem st)[p - 1 := None] \<rparr>"
    by (auto simp add: delete_chars_def split: option.splits)
  show ?thesis
  proof (cases "0 < q \<and> q \<le> length (mem st)")
    case F: False
    then show ?thesis using assms False
      by (auto simp add: st' at2_def delete_chars_def split: option.splits if_splits)
  next
    case q: True
    with False have "(p - 1 = q - 1) = (p = q)" by auto
    with False q show ?thesis
      by (auto simp add: st' at2_def nth_list_update)
  qed
qed

lemma delete_chars_live: "at2 st p = Some g \<Longrightarrow> \<exists>st'. delete_chars st p = Inr st'"
  by (auto simp add: delete_chars_def at2_def split: if_splits)

lemma Clone_InrD:
  assumes "Clone st t n = Inr (d, st')"
  shows "\<exists>g. at2 st t = Some g \<and> d = Suc (length (mem st))
           \<and> (\<forall>q. at2 st' q = (if q = d then Some (cloned g n) else at2 st q))"
proof -
  from assms obtain g where g: "at2 st t = Some g"
    and r: "new_chars (st\<lparr> nAllocs2 := nAllocs2 st + 1 \<rparr>) (cloned g n) = (d, st')"
    by (auto simp add: Clone_def split: option.splits)
  from r have d: "d = Suc (length (mem st))"
    and st': "st' = snd (new_chars (st\<lparr> nAllocs2 := nAllocs2 st + 1 \<rparr>) (cloned g n))"
    by (auto simp add: new_chars_def)
  have "at2 st' q = (if q = d then Some (cloned g n) else at2 st q)" for q
    unfolding st' d by (simp add: at2_new_chars)
  with g d show ?thesis by blast
qed

lemma String2_ctor_at2:
  assumes "String2_ctor st = (d, st')"
  shows "d = Suc (length (mem st))"
    and "at2 st' q = (if q = d then Some \<lparr> LEN = 0, USED = 0, REFS = 1, BUF = [] \<rparr> else at2 st q)"
  using assms by (auto simp add: String2_ctor_def new_chars_def at2_def nth_append)

lemma live_not_next: "at2 st s = Some g \<Longrightarrow> s \<noteq> Suc (length (mem st))"
  by (auto dest: at2_SomeD)

lemma EnsureUnique2_InrD:
  assumes run: "EnsureUnique2 st t n = Inr (d, st')"
  shows "(d = t \<or> d = Suc (length (mem st)))
         \<and> (\<exists>g'. at2 st' d = Some g' \<and> REFS g' = 1)
         \<and> (\<forall>q. q \<noteq> t \<longrightarrow> q \<noteq> d \<longrightarrow> at2 st' q = at2 st q)"
proof -
  from run obtain g where g: "at2 st t = Some g"
    by (auto simp add: EnsureUnique2_def split: option.splits)
  note tl = live_not_next [OF g]
  show ?thesis
  proof (cases "1 < REFS g")
    case True
    from EnsureUnique2_shared [OF g True, of n] run obtain
      d: "d = Suc (length (mem st))" and s': "at2 st' t = Some (g\<lparr> REFS := REFS g - 1 \<rparr>)"
      and d': "at2 st' d = Some (cloned g n)"
      by auto
    have cl: "Clone st t n = Inr (new_chars (st\<lparr> nAllocs2 := nAllocs2 st + 1 \<rparr>) (cloned g n))"
      by (rule Clone_eq [OF g])
    let ?st1 = "snd (new_chars (st\<lparr> nAllocs2 := nAllocs2 st + 1 \<rparr>) (cloned g n))"
    have t1: "at2 ?st1 t = Some g" using tl g by (simp add: at2_new_chars)
    from run g True cl t1 have st': "st' = put2 ?st1 t (g\<lparr> REFS := REFS g - 1 \<rparr>)"
      by (simp add: EnsureUnique2_def IntAtomicDecrement_def Let_def new_chars_def)
    have "at2 st' q = at2 st q" if "q \<noteq> t" "q \<noteq> d" for q
      using that d by (simp add: st' at2_put2 at2_new_chars)
    with d d' show ?thesis by (simp add: cloned_def Let_def)
  next
    case False
    show ?thesis
    proof (cases "LEN g < n")
      case grow: True
      let ?st1 = "snd (new_chars (st\<lparr> nAllocs2 := nAllocs2 st + 1 \<rparr>) (cloned g n))"
      let ?p = "Suc (length (mem st))"
      have cl: "Clone st t n = Inr (?p, ?st1)"
        using Clone_eq [OF g, of n] by (simp add: new_chars_def)
      have t1: "at2 ?st1 t = Some g" using tl g by (simp add: at2_new_chars)
      from delete_chars_live [OF t1] obtain st2 where del: "delete_chars ?st1 t = Inr st2" ..
      have p2: "at2 st2 ?p = Some (cloned g n)"
        using tl by (simp add: at2_delete_chars [OF del] at2_new_chars)
      from run g False grow cl del p2 have d: "d = ?p"
        and st': "st' = put2 st2 ?p ((cloned g n)\<lparr> REFS := 1 \<rparr>)"
        by (auto simp add: EnsureUnique2_def Reserve2_def)
      have "at2 st' d = Some ((cloned g n)\<lparr> REFS := 1 \<rparr>)"
        unfolding st' d using p2 by (rule put2_at2_same)
      moreover have "at2 st' q = at2 st q" if "q \<noteq> t" "q \<noteq> d" for q
        using that d by (simp add: st' at2_put2 at2_delete_chars [OF del] at2_new_chars)
      ultimately show ?thesis using d by simp
    next
      case keep: False
      from run g False keep have d: "d = t" and st': "st' = put2 st t (g\<lparr> REFS := 1 \<rparr>)"
        by (auto simp add: EnsureUnique2_def Reserve2_def)
      have "at2 st' d = Some (g\<lparr> REFS := 1 \<rparr>)"
        unfolding st' d using g by (rule put2_at2_same)
      moreover have "at2 st' q = at2 st q" if "q \<noteq> t" for q
        using that by (simp add: st' at2_put2)
      ultimately show ?thesis using d by simp
    qed
  qed
qed

lemma EnsureUnique2_other:
  assumes "EnsureUnique2 st t n = Inr (d, st')" and "at2 st s = Some g" and "t \<noteq> s"
  shows "d \<noteq> s" and "at2 st' s = at2 st s"
  using EnsureUnique2_InrD [OF assms(1)] live_not_next [OF assms(2)] assms(3) by auto

lemma Append2_InrD:
  assumes run: "Append2 st t c = Inr (d, st')"
  shows "(d = t \<or> d = Suc (length (mem st)))
         \<and> (\<exists>g'. at2 st' d = Some g' \<and> REFS g' = 1)
         \<and> (\<forall>q. q \<noteq> t \<longrightarrow> q \<noteq> d \<longrightarrow> at2 st' q = at2 st q)"
proof -
  from run obtain g0 where g0: "at2 st t = Some g0"
    by (auto simp add: Append2_def split: option.splits)
  from run g0 have "\<exists>st1 g1 g'. EnsureUnique2 st t (USED g0 + 1) = Inr (d, st1)
      \<and> at2 st1 d = Some g1 \<and> put_char2 g1 c = Inr g' \<and> st' = put2 st1 d g'"
    by (auto simp add: Append2_def seq_Inr_iff split: option.splits)
  then obtain st1 g1 g' where eu: "EnsureUnique2 st t (USED g0 + 1) = Inr (d, st1)"
    and g1: "at2 st1 d = Some g1" and pc: "put_char2 g1 c = Inr g'"
    and st': "st' = put2 st1 d g'"
    by blast
  note e = EnsureUnique2_InrD [OF eu]
  from e g1 have r1: "REFS g1 = 1" by auto
  from pc have "REFS g' = REFS g1"
    by (auto simp add: put_char2_def split: if_splits)
  with r1 have "at2 st' d = Some g' \<and> REFS g' = 1"
    using put2_at2_same [OF g1, of g'] by (simp add: st')
  moreover have "at2 st' q = at2 st q" if "q \<noteq> t" "q \<noteq> d" for q
    using that e by (simp add: st' at2_put2)
  ultimately show ?thesis using e by blast
qed

lemma index2_InrD:
  assumes run: "index2 st t n = Inr (d, st', r)"
  shows "(d = t \<or> d = Suc (length (mem st)))
         \<and> (\<exists>g'. at2 st' d = Some g' \<and> REFS g' = - 1)
         \<and> (\<forall>q. q \<noteq> t \<longrightarrow> q \<noteq> d \<longrightarrow> at2 st' q = at2 st q) \<and> r = (d, n)"
proof -
  from run obtain g0 where g0: "at2 st t = Some g0"
    by (auto simp add: index2_def split: option.splits)
  from run g0 have "\<exists>st1 g1. EnsureUnique2 st t (LEN g0) = Inr (d, st1)
      \<and> at2 st1 d = Some g1 \<and> st' = put2 st1 d (g1\<lparr> REFS := - 1 \<rparr>) \<and> r = (d, n)"
    by (auto simp add: index2_def EnsureUnshareable2_def seq_Inr_iff split: option.splits)
  then obtain st1 g1 where eu: "EnsureUnique2 st t (LEN g0) = Inr (d, st1)"
    and g1: "at2 st1 d = Some g1" and st': "st' = put2 st1 d (g1\<lparr> REFS := - 1 \<rparr>)"
    and r: "r = (d, n)"
    by blast
  note e = EnsureUnique2_InrD [OF eu]
  have "at2 st' d = Some (g1\<lparr> REFS := - 1 \<rparr>)"
    using put2_at2_same [OF g1] by (simp add: st')
  moreover have "at2 st' q = at2 st q" if "q \<noteq> t" "q \<noteq> d" for q
    using that e by (simp add: st' at2_put2)
  ultimately show ?thesis using e r by auto
qed

lemma index2_unshareable:
  assumes g: "at2 st s = Some g" and neg: "REFS g = - 1"
    and run: "index2 st s n = Inr (d, st', r)"
  shows "d = s" and "at2 st' s = Some g"
proof -
  have eu: "EnsureUnique2 st s (LEN g) = Inr (s, put2 st s (g\<lparr> REFS := 1 \<rparr>))"
    using g neg by (simp add: EnsureUnique2_def Reserve2_def)
  have s1: "at2 (put2 st s (g\<lparr> REFS := 1 \<rparr>)) s = Some (g\<lparr> REFS := 1 \<rparr>)"
    using g by (rule put2_at2_same)
  from run g eu s1 have d: "d = s"
    and st': "st' = put2 (put2 st s (g\<lparr> REFS := 1 \<rparr>)) s (g\<lparr> REFS := - 1 \<rparr>)"
    by (auto simp add: index2_def EnsureUnshareable2_def)
  show "d = s" by (rule d)
  have "g\<lparr> REFS := - 1 \<rparr> = g" using neg by simp
  then show "at2 st' s = Some g"
    using put2_at2_same [OF s1, of "g\<lparr> REFS := - 1 \<rparr>"] by (simp add: st')
qed

lemma String2_copy_InrD:
  assumes run: "String2_copy st t = Inr (d, st')"
  shows "\<exists>g. at2 st t = Some g
           \<and> (if 0 < REFS g then d = t else d = Suc (length (mem st)))
           \<and> (\<forall>q. q \<noteq> d \<longrightarrow> at2 st' q = at2 st q)"
proof -
  from run obtain g where g: "at2 st t = Some g"
    by (auto simp add: String2_copy_def split: option.splits)
  show ?thesis
  proof (cases "0 < REFS g")
    case True
    with run g have "d = t"
      and "st' = (put2 st t (g\<lparr> REFS := REFS g + 1 \<rparr>))\<lparr> nCopies2 := nCopies2 st + 1 \<rparr>"
      using String2_copy_shareable [OF g True] by auto
    with g True show ?thesis by (simp add: at2_put2)
  next
    case False
    with run g obtain st1 where cl: "Clone st t 0 = Inr (d, st1)"
      and st': "st' = st1\<lparr> nCopies2 := nCopies2 st1 + 1 \<rparr>"
      by (auto simp add: String2_copy_def seq_Inr_iff)
    from Clone_InrD [OF cl] g False show ?thesis by (auto simp add: st')
  qed
qed

lemma String2_dtor_other:
  assumes "String2_dtor st t = Inr st'" and "t \<noteq> s"
  shows "at2 st' s = at2 st s"
proof -
  from assms(1) obtain g where g: "at2 st t = Some g"
    by (auto simp add: String2_dtor_def split: option.splits)
  let ?st1 = "put2 st t (g\<lparr> REFS := REFS g - 1 \<rparr>)"
  from assms(1) g have "st' = ?st1 \<or> delete_chars ?st1 t = Inr st'"
    by (auto simp add: String2_dtor_def IntAtomicDecrement_def Let_def split: if_splits)
  then show ?thesis
    using assms(2) at2_delete_chars [of ?st1 t st' s] by (auto simp add: at2_put2)
qed

lemma String2_Clear_InrD:
  assumes run: "String2_Clear st t = Inr (d, st')" and live: "at2 st s = Some g"
    and ts: "t \<noteq> s"
  shows "d \<noteq> s" and "at2 st' s = at2 st s"
proof -
  obtain tmp st1 where c: "String2_ctor st = (tmp, st1)" by (cases "String2_ctor st")
  with run have dt: "String2_dtor st1 t = Inr st'" and d: "d = tmp"
    by (auto simp add: String2_Clear_def seq_Inr_iff)
  note k = String2_ctor_at2 [OF c]
  show "d \<noteq> s" using d k(1) live_not_next [OF live] by simp
  then show "at2 st' s = at2 st s"
    using String2_dtor_other [OF dt ts] d by (simp add: k(2))
qed

lemma unshareable_at2I:
  "at2 st' s = at2 st s \<Longrightarrow> unshareable_at2 st s \<Longrightarrow> unshareable_at2 st' s"
  by (simp add: unshareable_at2_def)

lemma step2_keeps_unshareable:
  assumes u: "unshareable_at2 st s" and o: "sole_owner vs j s" and nr: "\<not> resets j x"
    and run: "step2 (st, vs, tr) x = Inr (st', vs', tr')"
  shows "unshareable_at2 st' s \<and> sole_owner vs' j s \<and> at2 st' s = at2 st s"
proof -
  from u obtain g where g: "at2 st s = Some g" and neg: "REFS g = - 1"
    by (auto simp add: unshareable_at2_def split: option.splits)
  note nx = live_not_next [OF g]
  show ?thesis
  proof (cases x)
    case New
    with run obtain d where c: "String2_ctor st = (d, st')" and vs': "vs' = vs @ [Some d]"
      by (auto split: prod.splits)
    note k = String2_ctor_at2 [OF c]
    have "d \<noteq> s" using k(1) nx by simp
    then show ?thesis
      using u o by (simp add: vs' sole_owner_append unshareable_at2I k(2))
  next
    case (Copy i)
    with run obtain t d where t: "var vs i = Inr t"
      and c: "String2_copy st t = Inr (d, st')" and vs': "vs' = vs @ [Some d]"
      by (auto simp add: seq_Inr_iff)
    from String2_copy_InrD [OF c] obtain g0 where g0: "at2 st t = Some g0"
      and dd: "if 0 < REFS g0 then d = t else d = Suc (length (mem st))"
      and fr: "\<forall>q. q \<noteq> d \<longrightarrow> at2 st' q = at2 st q"
      by blast
    have ds: "d \<noteq> s"
    proof (cases "t = s")
      case True
      with g g0 neg dd nx show ?thesis by simp
    next
      case False
      with dd nx show ?thesis by (auto split: if_splits)
    qed
    with fr show ?thesis
      using u o by (simp add: vs' sole_owner_append unshareable_at2I)
  next
    case (Destroy i)
    with nr have ij: "i \<noteq> j" by simp
    from Destroy run obtain t where t: "var vs i = Inr t"
      and c: "String2_dtor st t = Inr st'" and vs': "vs' = vs[i := None]"
      by (auto simp add: seq_Inr_iff)
    have ts: "t \<noteq> s" using o t ij by (rule sole_owner_other)
    show ?thesis
      using String2_dtor_other [OF c ts] u o ij
      by (simp add: vs' sole_owner_update unshareable_at2I)
  next
    case (Clear i)
    with nr have ij: "i \<noteq> j" by simp
    from Clear run obtain t d where t: "var vs i = Inr t"
      and c: "String2_Clear st t = Inr (d, st')" and vs': "vs' = vs[i := Some d]"
      by (auto simp add: seq_Inr_iff)
    have ts: "t \<noteq> s" using o t ij by (rule sole_owner_other)
    note f = String2_Clear_InrD [OF c g ts]
    show ?thesis
      using f u o ij by (simp add: vs' sole_owner_update unshareable_at2I)
  next
    case (App i c)
    with nr have ij: "i \<noteq> j" by simp
    from App run obtain t d where t: "var vs i = Inr t"
      and c: "Append2 st t c = Inr (d, st')" and vs': "vs' = vs[i := Some d]"
      by (auto simp add: seq_Inr_iff)
    have ts: "t \<noteq> s" using o t ij by (rule sole_owner_other)
    from Append2_InrD [OF c] ts nx have "d \<noteq> s" and "at2 st' s = at2 st s" by auto
    then show ?thesis
      using u o ij by (simp add: vs' sole_owner_update unshareable_at2I)
  next
    case (Idx i n)
    with run obtain t d r where t: "var vs i = Inr t"
      and c: "index2 st t n = Inr (d, st', r)" and vs': "vs' = vs[i := Some d]"
      by (auto simp add: seq_Inr_iff)
    show ?thesis
    proof (cases "i = j")
      case True
      with o t have ts: "t = s" by (simp add: sole_owner_self)
      note f = index2_unshareable [OF g neg c [unfolded ts]]
      from f True u o g show ?thesis
        by (simp add: vs' sole_owner_same unshareable_at2_def)
    next
      case False
      have ts: "t \<noteq> s" using o t False by (rule sole_owner_other)
      from index2_InrD [OF c] ts nx have "d \<noteq> s" and "at2 st' s = at2 st s" by auto
      then show ?thesis
        using u o False by (simp add: vs' sole_owner_update unshareable_at2I)
    qed
  next
    case (Len i)
    with run have "st' = st" and "vs' = vs"
      by (auto simp add: seq_Inr_iff)
    with u o show ?thesis by simp
  qed
qed

lemma run2_keeps_unshareable:
  assumes "unshareable_at2 st s" and "sole_owner vs j s" and "\<forall>x \<in> set ops. \<not> resets j x"
    and "run2 (st, vs, tr) ops = Inr (st', vs', tr')"
  shows "unshareable_at2 st' s \<and> sole_owner vs' j s \<and> at2 st' s = at2 st s"
  using assms
proof (induction ops arbitrary: st vs tr)
  case Nil
  then show ?case by simp
next
  case (Cons x ops)
  from Cons.prems(4) obtain st1 vs1 tr1 where
    s1: "step2 (st, vs, tr) x = Inr (st1, vs1, tr1)"
    and r1: "run2 (st1, vs1, tr1) ops = Inr (st', vs', tr')"
    by (auto simp add: seq_Inr_iff)
  from Cons.prems(3) have nr: "\<not> resets j x" and rest: "\<forall>y \<in> set ops. \<not> resets j y"
    by simp_all
  note k = step2_keeps_unshareable [OF Cons.prems(1,2) nr s1]
  from Cons.IH [of st1 vs1 tr1] k rest r1
  have "unshareable_at2 st' s \<and> sole_owner vs' j s \<and> at2 st' s = at2 st1 s" by blast
  with k show ?case by simp
qed

section \<open>Swap and the unshareable state\<close>

lemma sole_owner_swap:
  assumes o: "sole_owner vs j s" and a: "a \<noteq> j" and b: "b \<noteq> j"
    and x: "var vs a = Inr x" and y: "var vs b = Inr y"
  shows "sole_owner (vs[a := Some y, b := Some x]) j s"
proof -
  from sole_owner_other [OF o x a] have xs: "Some x \<noteq> Some s" by simp
  from sole_owner_other [OF o y b] have ys: "Some y \<noteq> Some s" by simp
  from sole_owner_update [OF o a ys] have "sole_owner (vs[a := Some y]) j s" .
  from sole_owner_update [OF this b xs] show ?thesis .
qed

lemma step2_full_keeps_unshareable:
  assumes u: "unshareable_at2 st s" and o: "sole_owner vs j s" and nr: "\<not> resets2 j x"
    and run: "step2_full (st, vs, tr) x = Inr (st', vs', tr')"
  shows "unshareable_at2 st' s \<and> sole_owner vs' j s \<and> at2 st' s = at2 st s"
proof (cases x)
  case (Common y)
  with nr run have "\<not> resets j y" and "step2 (st, vs, tr) y = Inr (st', vs', tr')"
    by simp_all
  from step2_keeps_unshareable [OF u o this] show ?thesis .
next
  case (Swap a b)
  with nr have a: "a \<noteq> j" and b: "b \<noteq> j" by simp_all
  from run Swap obtain p q where p: "var vs a = Inr p" and q: "var vs b = Inr q"
    and st': "st' = st" and vs': "vs' = vs[a := Some q, b := Some p]"
    by (auto simp add: seq_Inr_iff)
  from sole_owner_swap [OF o a b p q] u show ?thesis by (simp add: st' vs')
qed

lemma run2_full_keeps_unshareable:
  assumes "unshareable_at2 st s" and "sole_owner vs j s" and "\<forall>x \<in> set ops. \<not> resets2 j x"
    and "run2_full (st, vs, tr) ops = Inr (st', vs', tr')"
  shows "unshareable_at2 st' s \<and> sole_owner vs' j s \<and> at2 st' s = at2 st s"
  using assms
proof (induction ops arbitrary: st vs tr)
  case Nil
  then show ?case by simp
next
  case (Cons x ops)
  from Cons.prems(4) obtain st1 vs1 tr1 where
    s1: "step2_full (st, vs, tr) x = Inr (st1, vs1, tr1)"
    and r1: "run2_full (st1, vs1, tr1) ops = Inr (st', vs', tr')"
    by (auto simp add: seq_Inr_iff)
  from Cons.prems(3) have nr: "\<not> resets2 j x" and rest: "\<forall>y \<in> set ops. \<not> resets2 j y"
    by simp_all
  note k = step2_full_keeps_unshareable [OF Cons.prems(1,2) nr s1]
  from Cons.IH [of st1 vs1 tr1] k rest r1
  have "unshareable_at2 st' s \<and> sole_owner vs' j s \<and> at2 st' s = at2 st1 s" by blast
  with k show ?case by simp
qed

lemma EnsureUnshareable2_marks:
  assumes "EnsureUnshareable2 st s n = Inr (d, st')"
  shows "\<exists>g'. at2 st' d = Some g' \<and> REFS g' = - 1"
proof -
  from assms have "\<exists>st1 g1. at2 st1 d = Some g1 \<and> st' = put2 st1 d (g1\<lparr> REFS := - 1 \<rparr>)"
    by (auto simp add: EnsureUnshareable2_def seq_Inr_iff split: option.splits)
  then obtain st1 g1 where g1: "at2 st1 d = Some g1"
    and st': "st' = put2 st1 d (g1\<lparr> REFS := - 1 \<rparr>)"
    by blast
  have "at2 st' d = Some (g1\<lparr> REFS := - 1 \<rparr>)"
    unfolding st' using g1 by (rule put2_at2_same)
  then show ?thesis by simp
qed

lemma String2_copy_unshareable:
  assumes g: "at2 st s = Some g" and neg: "REFS g \<le> 0"
    and run: "String2_copy st s = Inr (d, st')"
  shows "d \<noteq> s" and "at2 st' s = Some g" and "\<exists>g'. at2 st' d = Some g' \<and> REFS g' = 1"
    and "nCopies2 st' = nCopies2 st + 1" and "at2 st' d = Some (cloned g 0)"
proof -
  from run g neg obtain st1 where cl: "Clone st s 0 = Inr (d, st1)"
    and st': "st' = st1\<lparr> nCopies2 := nCopies2 st1 + 1 \<rparr>"
    by (auto simp add: String2_copy_def seq_Inr_iff)
  from Clone_InrD [OF cl] g have d: "d = Suc (length (mem st))"
    and at: "\<And>q. at2 st1 q = (if q = d then Some (cloned g 0) else at2 st q)"
    by auto
  show ds: "d \<noteq> s" using d live_not_next [OF g] by simp
  show "at2 st' s = Some g" using ds g by (simp add: st' at)
  show "\<exists>g'. at2 st' d = Some g' \<and> REFS g' = 1"
    by (simp add: st' at cloned_def Let_def)
  from cl g show "nCopies2 st' = nCopies2 st + 1"
    by (auto simp add: st' Clone_def new_chars_def)
  show "at2 st' d = Some (cloned g 0)" by (simp add: st' at)
qed

lemma String2_Clear_live:
  assumes run: "String2_Clear st s = Inr (d, st')" and g: "at2 st s = Some g"
  shows "d \<noteq> s" and "at2 st' d = Some \<lparr> LEN = 0, USED = 0, REFS = 1, BUF = [] \<rparr>"
proof -
  obtain tmp st1 where c: "String2_ctor st = (tmp, st1)" by (cases "String2_ctor st")
  with run have dt: "String2_dtor st1 s = Inr st'" and d: "d = tmp"
    by (auto simp add: String2_Clear_def seq_Inr_iff)
  note k = String2_ctor_at2 [OF c]
  show ds: "d \<noteq> s" using d k(1) live_not_next [OF g] by simp
  have "at2 st' d = at2 st1 d"
    using ds by (intro String2_dtor_other [OF dt]) simp
  then show "at2 st' d = Some \<lparr> LEN = 0, USED = 0, REFS = 1, BUF = [] \<rparr>"
    using d by (simp add: k(2))
qed

text \<open>
  C3, as amended. In each of the five copy-on-write namespaces:
  \<^item> when \<^verbatim>\<open>EnsureUnshareable\<close> returns, the String's buffer has \<open>refs = - 1\<close>;
  \<^item> while a buffer is in that state, held by String \<open>j\<close> alone, every run of public
    operations that contains no Append to, Clear of or destruction of String \<open>j\<close> (and, in
    COW_AtomicInt2, no Swap of String \<open>j\<close> with another) leaves the buffer exactly as it
    was, still unshareable and still held by String \<open>j\<close> alone. The run may copy String
    \<open>j\<close>, index it, take its length, and do anything to other Strings;
  \<^item> a copy construction from it returns a String on a buffer of its own, never the
    source's: its \<open>refs\<close> is 1, its length is the source's and its capacity is the source's
    rounded up to a multiple of 4 (in COW_AtomicInt2: one and a half times the source's,
    rounded), and the source's buffer is untouched. In COW_AtomicInt2 its first \<open>USED\<close>
    cells are the source's characters;
  \<^item> an Append to it, or a Clear of it, leaves the String on a buffer whose \<open>refs\<close> is 1,
    shareable again.
\<close>

theorem unshareable_until_next_Append_or_Clear:
  "(EnsureUnshareable v st s n = Inr (d, st') \<longrightarrow>
      (\<exists>sb'. heap st' d = Some sb' \<and> refs sb' = - 1))
   \<and> (unshareable_at st s \<and> sole_owner vs j s \<and> (\<forall>x \<in> set ops. \<not> resets j x)
       \<and> run v (st, vs, tr) ops = Inr (st1, vs1, tr1) \<longrightarrow>
         unshareable_at st1 s \<and> sole_owner vs1 j s \<and> heap st1 s = heap st s)
   \<and> (unshareable_at st s \<longrightarrow>
        (\<forall>e st3. String_copy v st s = Inr (e, st3) \<longrightarrow>
           e \<noteq> s \<and> heap st3 s = heap st s \<and> nCopies st3 = nCopies st + 1
           \<and> (\<exists>sb sb3. heap st s = Some sb \<and> heap st3 e = Some sb3 \<and> refs sb3 = 1
                 \<and> used sb3 = used sb \<and> len sb3 = round_len (len sb)))
        \<and> (\<forall>e st3. Append v st s c = Inr (e, st3) \<longrightarrow>
           e = s \<and> (\<exists>sb3. heap st3 s = Some sb3 \<and> refs sb3 = 1))
        \<and> (\<forall>e st3. String_Clear v st s = Inr (e, st3) \<longrightarrow>
           e = s \<and> (\<exists>sb3. heap st3 s = Some sb3 \<and> refs sb3 = 1)))
   \<and> (EnsureUnshareable2 t s2 n = Inr (d2, t') \<longrightarrow>
      (\<exists>g'. at2 t' d2 = Some g' \<and> REFS g' = - 1))
   \<and> (unshareable_at2 t s2 \<and> sole_owner ws k s2 \<and> (\<forall>x \<in> set ops2. \<not> resets2 k x)
       \<and> run2_full (t, ws, tr2) ops2 = Inr (t1, ws1, tr3) \<longrightarrow>
         unshareable_at2 t1 s2 \<and> sole_owner ws1 k s2 \<and> at2 t1 s2 = at2 t s2)
   \<and> (unshareable_at2 t s2 \<longrightarrow>
        (\<forall>e t3. String2_copy t s2 = Inr (e, t3) \<longrightarrow>
           e \<noteq> s2 \<and> at2 t3 s2 = at2 t s2 \<and> nCopies2 t3 = nCopies2 t + 1
           \<and> (\<exists>g g3. at2 t s2 = Some g \<and> at2 t3 e = Some g3 \<and> REFS g3 = 1
                 \<and> USED g3 = USED g \<and> LEN g3 = round_len (needed_size (LEN g) 0)
                 \<and> BUF g3 = take (USED g) (BUF g) @ drop (USED g) (new_char_array (LEN g3))))
        \<and> (\<forall>e t3. Append2 t s2 c = Inr (e, t3) \<longrightarrow>
           (\<exists>g3. at2 t3 e = Some g3 \<and> REFS g3 = 1))
        \<and> (\<forall>e t3. String2_Clear t s2 = Inr (e, t3) \<longrightarrow>
           e \<noteq> s2 \<and> (\<exists>g3. at2 t3 e = Some g3 \<and> REFS g3 = 1)))"
proof (intro conjI impI allI)
  assume "EnsureUnshareable v st s n = Inr (d, st')"
  then show "\<exists>sb'. heap st' d = Some sb' \<and> refs sb' = - 1"
    by (rule EnsureUnshareable_marks)
next
  assume a: "unshareable_at st s \<and> sole_owner vs j s \<and> (\<forall>x \<in> set ops. \<not> resets j x)
       \<and> run v (st, vs, tr) ops = Inr (st1, vs1, tr1)"
  then have r: "unshareable_at st1 s \<and> sole_owner vs1 j s \<and> heap st1 s = heap st s"
    by (intro run_keeps_unshareable [of st s vs j ops v tr st1 vs1 tr1]) simp_all
  from r show "unshareable_at st1 s" by simp
  from r show "sole_owner vs1 j s" by simp
  from r show "heap st1 s = heap st s" by simp
next
  fix e st3
  assume u: "unshareable_at st s" and run: "String_copy v st s = Inr (e, st3)"
  from u obtain sb where live: "allocated (fa st) s" and sb: "heap st s = Some sb"
    and neg: "refs sb = - 1"
    by (auto simp add: unshareable_at_def split: option.splits)
  from neg have le: "refs sb \<le> 0" by simp
  note c = String_copy_unshareable [OF sb le live run]
  show "e \<noteq> s" by (rule c(1))
  show "heap st3 s = heap st s" by (simp add: c(2) sb)
  show "nCopies st3 = nCopies st + 1" by (rule c(5))
  show "\<exists>sb sb3. heap st s = Some sb \<and> heap st3 e = Some sb3 \<and> refs sb3 = 1
          \<and> used sb3 = used sb \<and> len sb3 = round_len (len sb)"
    by (simp add: sb c(4) StringBuf_clone_eq round_len_0)
next
  fix e st3
  assume u: "unshareable_at st s" and run: "Append v st s c = Inr (e, st3)"
  from u obtain sb where sb: "heap st s = Some sb" and neg: "refs sb = - 1"
    by (auto simp add: unshareable_at_def split: option.splits)
  from neg have le: "refs sb \<le> 1" by simp
  note a = Append_unshared [OF sb le run]
  show "e = s" by (rule a(1))
  show "\<exists>sb3. heap st3 s = Some sb3 \<and> refs sb3 = 1" by (rule a(2))
next
  fix e st3
  assume u: "unshareable_at st s" and run: "String_Clear v st s = Inr (e, st3)"
  from u obtain sb where sb: "heap st s = Some sb" and neg: "refs sb = - 1"
    by (auto simp add: unshareable_at_def split: option.splits)
  from neg have le: "refs sb \<le> 1" by simp
  from run have r: "e = s \<and> st3 = st\<lparr> heap := (heap st)(s \<mapsto> (StringBuf_Clear sb)\<lparr> refs := 1 \<rparr>) \<rparr>"
    unfolding String_Clear_unshared [OF sb le] by auto
  then show "e = s" by simp
  from r show "\<exists>sb3. heap st3 s = Some sb3 \<and> refs sb3 = 1" by simp
next
  assume "EnsureUnshareable2 t s2 n = Inr (d2, t')"
  then show "\<exists>g'. at2 t' d2 = Some g' \<and> REFS g' = - 1"
    by (rule EnsureUnshareable2_marks)
next
  assume a: "unshareable_at2 t s2 \<and> sole_owner ws k s2 \<and> (\<forall>x \<in> set ops2. \<not> resets2 k x)
       \<and> run2_full (t, ws, tr2) ops2 = Inr (t1, ws1, tr3)"
  then have r: "unshareable_at2 t1 s2 \<and> sole_owner ws1 k s2 \<and> at2 t1 s2 = at2 t s2"
    by (intro run2_full_keeps_unshareable [of t s2 ws k ops2 tr2 t1 ws1 tr3]) simp_all
  from r show "unshareable_at2 t1 s2" by simp
  from r show "sole_owner ws1 k s2" by simp
  from r show "at2 t1 s2 = at2 t s2" by simp
next
  fix e t3
  assume u: "unshareable_at2 t s2" and run: "String2_copy t s2 = Inr (e, t3)"
  from u obtain g where g: "at2 t s2 = Some g" and neg: "REFS g = - 1"
    by (auto simp add: unshareable_at2_def split: option.splits)
  from neg have le: "REFS g \<le> 0" by simp
  note c = String2_copy_unshareable [OF g le run]
  show "e \<noteq> s2" by (rule c(1))
  show "at2 t3 s2 = at2 t s2" by (simp add: c(2) g)
  show "nCopies2 t3 = nCopies2 t + 1" by (rule c(4))
  show "\<exists>g g3. at2 t s2 = Some g \<and> at2 t3 e = Some g3 \<and> REFS g3 = 1
          \<and> USED g3 = USED g \<and> LEN g3 = round_len (needed_size (LEN g) 0)
          \<and> BUF g3 = take (USED g) (BUF g) @ drop (USED g) (new_char_array (LEN g3))"
    by (simp add: g c(5) cloned_def Let_def memcpy_cells_def)
next
  fix e t3
  assume "unshareable_at2 t s2" and run: "Append2 t s2 c = Inr (e, t3)"
  from Append2_InrD [OF run] show "\<exists>g3. at2 t3 e = Some g3 \<and> REFS g3 = 1" by blast
next
  fix e t3
  assume u: "unshareable_at2 t s2" and run: "String2_Clear t s2 = Inr (e, t3)"
  from u obtain g where g: "at2 t s2 = Some g"
    by (auto simp add: unshareable_at2_def split: option.splits)
  note c = String2_Clear_live [OF run g]
  show "e \<noteq> s2" by (rule c(1))
  show "\<exists>g3. at2 t3 e = Some g3 \<and> REFS g3 = 1" by (simp add: c(2))
qed

text \<open>
  The witness: in COW_Unsafe and in COW_AtomicInt2, a String that holds \<open>X\<close> is made
  unshareable. The run \<open>Copy 0, Idx 0 0, Len 0, New, App 1 Y\<close> then copies it, indexes it,
  takes its length, constructs another String and appends to the copy; in COW_AtomicInt2
  it then swaps the copy with the other String. None of these is an Append to, a Clear of,
  the destruction of or a Swap with String 0.
\<close>

theorem unshareable_until_next_Append_or_Clear_witness:
  "(let S0 = \<lparr> fa = \<lparr> n_fa = 16, buf_fa = 4096, hdr = (\<lambda>i. 0)(0 := 1) \<rparr>,
               heap = (\<lambda>p. None)(4100 \<mapsto> \<lparr> buf = Some [Some CHR ''X'', None, None, None],
                                              len = 4, used = 1, refs = 1 \<rparr>),
               nCopies = 0, nAllocs = 1, sizeof_StringBuf = 16 \<rparr>;
        S1 = \<lparr> fa = \<lparr> n_fa = 16, buf_fa = 4096, hdr = (\<lambda>i. 0)(0 := 1) \<rparr>,
               heap = (\<lambda>p. None)(4100 \<mapsto> \<lparr> buf = Some [Some CHR ''X'', None, None, None],
                                              len = 4, used = 1, refs = - 1 \<rparr>),
               nCopies = 0, nAllocs = 1, sizeof_StringBuf = 16 \<rparr>
    in run COW_Unsafe (cow_init 4096 16, [], []) [New, App 0 CHR ''X''] = Inr (S0, [Some 4100], [])
       \<and> EnsureUnshareable COW_Unsafe S0 4100 4 = Inr (4100, S1)
       \<and> unshareable_at S1 4100 \<and> sole_owner [Some 4100] 0 4100
       \<and> (case run COW_Unsafe (S1, [Some 4100], [])
                  [Copy 0, Idx 0 0, Len 0, New, App 1 CHR ''Y''] of
             Inl e \<Rightarrow> False
           | Inr (st1, vs1, tr1) \<Rightarrow>
               vs1 = [Some 4100, Some 4120, Some 4140]
               \<and> unshareable_at st1 4100 \<and> sole_owner vs1 0 4100
               \<and> heap st1 4100 = heap S1 4100)
       \<and> (case String_copy COW_Unsafe S1 4100 of
             Inl e \<Rightarrow> False
           | Inr (e, st3) \<Rightarrow> e = 4120 \<and> e \<noteq> 4100 \<and> heap st3 4100 = heap S1 4100)
       \<and> (case Append COW_Unsafe S1 4100 CHR ''Y'' of
             Inl e \<Rightarrow> False
           | Inr (e, st3) \<Rightarrow> e = 4100 \<and> (\<exists>sb3. heap st3 4100 = Some sb3 \<and> refs sb3 = 1))
       \<and> (case String_Clear COW_Unsafe S1 4100 of
             Inl e \<Rightarrow> False
           | Inr (e, st3) \<Rightarrow> e = 4100 \<and> (\<exists>sb3. heap st3 4100 = Some sb3 \<and> refs sb3 = 1)))
   \<and> (let T0 = \<lparr> mem = [None, Some \<lparr> LEN = 4, USED = 1, REFS = 1,
                                       BUF = [Some CHR ''X'', None, None, None] \<rparr>],
                  nCopies2 = 0, nAllocs2 = 2 \<rparr>;
           T1 = \<lparr> mem = [None, Some \<lparr> LEN = 4, USED = 1, REFS = - 1,
                                       BUF = [Some CHR ''X'', None, None, None] \<rparr>],
                  nCopies2 = 0, nAllocs2 = 2 \<rparr>
       in run2 (cow2_init, [], []) [New, App 0 CHR ''X''] = Inr (T0, [Some 2], [])
          \<and> EnsureUnshareable2 T0 2 4 = Inr (2, T1)
          \<and> unshareable_at2 T1 2 \<and> sole_owner [Some 2] 0 2
          \<and> (case run2_full (T1, [Some 2], [])
                     [Common (Copy 0), Common (Idx 0 0), Common (Len 0), Common New,
                      Common (App 1 CHR ''Y''), Swap 1 2] of
                Inl e \<Rightarrow> False
              | Inr (t1, ws1, tr1) \<Rightarrow>
                  ws1 = [Some 2, Some 4, Some 3]
                  \<and> unshareable_at2 t1 2 \<and> sole_owner ws1 0 2 \<and> at2 t1 2 = at2 T1 2)
          \<and> (case String2_copy T1 2 of
                Inl e \<Rightarrow> False
              | Inr (e, t3) \<Rightarrow> e = 3 \<and> e \<noteq> 2 \<and> at2 t3 2 = at2 T1 2)
          \<and> (case Append2 T1 2 CHR ''Y'' of
                Inl e \<Rightarrow> False
              | Inr (e, t3) \<Rightarrow> (\<exists>g3. at2 t3 e = Some g3 \<and> REFS g3 = 1))
          \<and> (case String2_Clear T1 2 of
                Inl e \<Rightarrow> False
              | Inr (e, t3) \<Rightarrow> e \<noteq> 2 \<and> (\<exists>g3. at2 t3 e = Some g3 \<and> REFS g3 = 1)))"
proof -
  let ?S0 = "\<lparr> fa = \<lparr> n_fa = 16, buf_fa = 4096, hdr = (\<lambda>i. 0)(0 := 1) \<rparr>,
               heap = (\<lambda>p. None)(4100 \<mapsto> \<lparr> buf = Some [Some CHR ''X'', None, None, None],
                                              len = 4, used = 1, refs = 1 \<rparr>),
               nCopies = 0, nAllocs = 1, sizeof_StringBuf = 16 \<rparr>"
  let ?S1 = "\<lparr> fa = \<lparr> n_fa = 16, buf_fa = 4096, hdr = (\<lambda>i. 0)(0 := 1) \<rparr>,
               heap = (\<lambda>p. None)(4100 \<mapsto> \<lparr> buf = Some [Some CHR ''X'', None, None, None],
                                              len = 4, used = 1, refs = - 1 \<rparr>),
               nCopies = 0, nAllocs = 1, sizeof_StringBuf = 16 \<rparr>"
  let ?T0 = "\<lparr> mem = [None, Some \<lparr> LEN = 4, USED = 1, REFS = 1,
                                       BUF = [Some CHR ''X'', None, None, None] \<rparr>],
                  nCopies2 = 0, nAllocs2 = 2 \<rparr>"
  let ?T1 = "\<lparr> mem = [None, Some \<lparr> LEN = 4, USED = 1, REFS = - 1,
                                       BUF = [Some CHR ''X'', None, None, None] \<rparr>],
                  nCopies2 = 0, nAllocs2 = 2 \<rparr>"
  let ?ops = "[Copy 0, Idx 0 0, Len 0, New, App 1 CHR ''Y'']"
  let ?ops2 = "[Common (Copy 0), Common (Idx 0 0), Common (Len 0), Common New,
                Common (App 1 CHR ''Y''), Swap 1 2]"
  have r0: "run COW_Unsafe (cow_init 4096 16, [], []) [New, App 0 CHR ''X''] = Inr (?S0, [Some 4100], [])"
    by (simp add: arena_eval buffer_eval cow_eval)
  have eu: "EnsureUnshareable COW_Unsafe ?S0 4100 4 = Inr (4100, ?S1)"
    by (simp add: arena_eval buffer_eval cow_eval)
  have u: "unshareable_at ?S1 4100"
    by (simp add: unshareable_at_def arena_eval)
  have o: "sole_owner [Some 4100] 0 4100"
    by (simp add: sole_owner_def)
  have nr: "\<forall>x \<in> set ?ops. \<not> resets 0 x"
    by simp
  have nr2: "\<forall>x \<in> set ?ops2. \<not> resets2 0 x"
    by simp
  obtain st1 vs1 tr1 where r1: "run COW_Unsafe (?S1, [Some 4100], []) ?ops = Inr (st1, vs1, tr1)"
    and vs1: "vs1 = [Some 4100, Some 4120, Some 4140]"
    by (simp add: arena_eval buffer_eval cow_eval)
  obtain e1 st3 where c1: "String_copy COW_Unsafe ?S1 4100 = Inr (e1, st3)" and e1: "e1 = 4120"
    by (simp add: arena_eval buffer_eval cow_eval)
  obtain e2 st4 where a1: "Append COW_Unsafe ?S1 4100 CHR ''Y'' = Inr (e2, st4)"
    by (simp add: arena_eval buffer_eval cow_eval)
  obtain e3 st5 where k1: "String_Clear COW_Unsafe ?S1 4100 = Inr (e3, st5)"
    by (simp add: arena_eval buffer_eval cow_eval)
  have q0: "run2 (cow2_init, [], []) [New, App 0 CHR ''X''] = Inr (?T0, [Some 2], [])"
    by (simp add: arena_eval buffer_eval cow2_eval)
  have eu2: "EnsureUnshareable2 ?T0 2 4 = Inr (2, ?T1)"
    by (simp add: arena_eval buffer_eval cow2_eval)
  have u2: "unshareable_at2 ?T1 2"
    by (simp add: unshareable_at2_def at2_def)
  have o2: "sole_owner [Some 2] 0 2"
    by (simp add: sole_owner_def)
  obtain t1 ws1 tr3 where q1: "run2_full (?T1, [Some 2], []) ?ops2 = Inr (t1, ws1, tr3)"
    and ws1: "ws1 = [Some 2, Some 4, Some 3]"
    by (simp add: arena_eval buffer_eval cow2_eval)
  obtain f1 t3 where c2: "String2_copy ?T1 2 = Inr (f1, t3)" and f1: "f1 = 3"
    by (simp add: arena_eval buffer_eval cow2_eval)
  obtain f2 t4 where a2: "Append2 ?T1 2 CHR ''Y'' = Inr (f2, t4)"
    by (simp add: arena_eval buffer_eval cow2_eval)
  obtain f3 t5 where k2: "String2_Clear ?T1 2 = Inr (f3, t5)"
    by (simp add: arena_eval buffer_eval cow2_eval)
  note inst = unshareable_until_next_Append_or_Clear
    [where v = COW_Unsafe and st = ?S1 and s = 4100 and vs = "[Some 4100]" and j = 0
       and ops = ?ops and tr = "[]" and ?st1.0 = st1 and ?vs1.0 = vs1 and ?tr1.0 = tr1
       and c = "CHR ''Y''"
       and t = ?T1 and ?s2.0 = 2 and ws = "[Some 2]" and k = 0 and ?ops2.0 = ?ops2
       and ?tr2.0 = "[]" and ?t1.0 = t1 and ?ws1.0 = ws1 and ?tr3.0 = tr3]
  note i2 = inst [THEN conjunct2, THEN conjunct1]
  note i3 = mp [OF inst [THEN conjunct2, THEN conjunct2, THEN conjunct1] u]
  note i5 = inst [THEN conjunct2, THEN conjunct2, THEN conjunct2, THEN conjunct2, THEN conjunct1]
  note i6 = mp [OF inst [THEN conjunct2, THEN conjunct2, THEN conjunct2, THEN conjunct2,
                         THEN conjunct2] u2]
  have p1: "unshareable_at st1 4100 \<and> sole_owner vs1 0 4100
      \<and> heap st1 4100 = heap ?S1 4100"
    by (rule mp [OF i2]) (intro conjI u o nr r1)
  have p2: "e1 \<noteq> 4100 \<and> heap st3 4100 = heap ?S1 4100"
    using i3 [THEN conjunct1, rule_format, OF c1] by simp
  have p3: "e2 = 4100 \<and> (\<exists>sb3. heap st4 4100 = Some sb3 \<and> refs sb3 = 1)"
    by (rule i3 [THEN conjunct2, THEN conjunct1, rule_format, OF a1])
  have p4: "e3 = 4100 \<and> (\<exists>sb3. heap st5 4100 = Some sb3 \<and> refs sb3 = 1)"
    by (rule i3 [THEN conjunct2, THEN conjunct2, rule_format, OF k1])
  have p5: "unshareable_at2 t1 2 \<and> sole_owner ws1 0 2
      \<and> at2 t1 2 = at2 ?T1 2"
    by (rule mp [OF i5]) (intro conjI u2 o2 nr2 q1)
  have p6: "f1 \<noteq> 2 \<and> at2 t3 2 = at2 ?T1 2"
    using i6 [THEN conjunct1, rule_format, OF c2] by simp
  have p7: "\<exists>g3. at2 t4 f2 = Some g3 \<and> REFS g3 = 1"
    by (rule i6 [THEN conjunct2, THEN conjunct1, rule_format, OF a2])
  have p8: "f3 \<noteq> 2 \<and> (\<exists>g3. at2 t5 f3 = Some g3 \<and> REFS g3 = 1)"
    by (rule i6 [THEN conjunct2, THEN conjunct2, rule_format, OF k2])
  have w1: "case run COW_Unsafe (?S1, [Some 4100], []) ?ops of
             Inl e \<Rightarrow> False
           | Inr (st1, vs1, tr1) \<Rightarrow>
               vs1 = [Some 4100, Some 4120, Some 4140]
               \<and> unshareable_at st1 4100 \<and> sole_owner vs1 0 4100
               \<and> heap st1 4100 = heap ?S1 4100"
    unfolding r1 using vs1 p1 by simp
  have w2: "case String_copy COW_Unsafe ?S1 4100 of
             Inl e \<Rightarrow> False
           | Inr (e, st3) \<Rightarrow> e = 4120 \<and> e \<noteq> 4100 \<and> heap st3 4100 = heap ?S1 4100"
    unfolding c1 using e1 p2 by simp
  have w3: "case Append COW_Unsafe ?S1 4100 CHR ''Y'' of
             Inl e \<Rightarrow> False
           | Inr (e, st3) \<Rightarrow> e = 4100 \<and> (\<exists>sb3. heap st3 4100 = Some sb3 \<and> refs sb3 = 1)"
    unfolding a1 using p3 by simp
  have w4: "case String_Clear COW_Unsafe ?S1 4100 of
             Inl e \<Rightarrow> False
           | Inr (e, st3) \<Rightarrow> e = 4100 \<and> (\<exists>sb3. heap st3 4100 = Some sb3 \<and> refs sb3 = 1)"
    unfolding k1 using p4 by simp
  have w5: "case run2_full (?T1, [Some 2], []) ?ops2 of
                Inl e \<Rightarrow> False
              | Inr (t1, ws1, tr1) \<Rightarrow>
                  ws1 = [Some 2, Some 4, Some 3]
                  \<and> unshareable_at2 t1 2 \<and> sole_owner ws1 0 2 \<and> at2 t1 2 = at2 ?T1 2"
    unfolding q1 using ws1 p5 by simp
  have w6: "case String2_copy ?T1 2 of
                Inl e \<Rightarrow> False
              | Inr (e, t3) \<Rightarrow> e = 3 \<and> e \<noteq> 2 \<and> at2 t3 2 = at2 ?T1 2"
    unfolding c2 using f1 p6 by simp
  have w7: "case Append2 ?T1 2 CHR ''Y'' of
                Inl e \<Rightarrow> False
              | Inr (e, t3) \<Rightarrow> (\<exists>g3. at2 t3 e = Some g3 \<and> REFS g3 = 1)"
    unfolding a2 using p7 by simp
  have w8: "case String2_Clear ?T1 2 of
                Inl e \<Rightarrow> False
              | Inr (e, t3) \<Rightarrow> e \<noteq> 2 \<and> (\<exists>g3. at2 t3 e = Some g3 \<and> REFS g3 = 1)"
    unfolding k2 using p8 by simp
  show ?thesis
    unfolding Let_def by (intro conjI r0 eu u o w1 w2 w3 w4 q0 eu2 u2 o2 w5 w6 w7 w8)
qed

text \<open>
  The claim as stated fails on an Append between the indexed access and the copy. In
  COW_Unsafe, after \<open>New, App 0 X, Idx 0 0\<close> the buffer of String 0 is unshareable. The
  Append that follows is neither a Clear nor a reconstruction, and it sets \<open>refs\<close> back to
  1 (\<^verbatim>\<open>data_->refs = 1; // shareable again\<close> in EnsureUnique). The copy construction that
  comes next shares the buffer: the copy holds the same address, \<open>refs\<close> is 2, and nothing
  has been allocated for it.

  In COW_AtomicInt2 a Swap does the same without touching any buffer: after
  \<open>New, App 0 X, Idx 0 0, New, Swap 0 1\<close> String 0 holds the empty, shareable buffer of
  String 1, and the copy of String 0 shares it (the copy and String 0 both hold address 3,
  whose \<open>REFS\<close> is 2).
\<close>

theorem unshareable_reset_by_Append_counterexample:
  "run COW_Unsafe (cow_init 4096 16, [], []) [New, App 0 CHR ''X'', Idx 0 0]
     = Inr (\<lparr> fa = \<lparr> n_fa = 16, buf_fa = 4096, hdr = (\<lambda>i. 0)(0 := 1) \<rparr>,
              heap = (\<lambda>p. None)(4100 \<mapsto> \<lparr> buf = Some [Some CHR ''X'', None, None, None],
                                             len = 4, used = 1, refs = - 1 \<rparr>),
              nCopies = 0, nAllocs = 1, sizeof_StringBuf = 16 \<rparr>,
            [Some 4100], [Char_is (Chr CHR ''X'')])
   \<and> run COW_Unsafe (cow_init 4096 16, [], [])
        [New, App 0 CHR ''X'', Idx 0 0, App 0 CHR ''Y'', Copy 0]
     = Inr (\<lparr> fa = \<lparr> n_fa = 16, buf_fa = 4096, hdr = (\<lambda>i. 0)(0 := 1) \<rparr>,
              heap = (\<lambda>p. None)(4100 \<mapsto> \<lparr> buf = Some [Some CHR ''X'', Some CHR ''Y'', None, None],
                                             len = 4, used = 2, refs = 2 \<rparr>),
              nCopies = 1, nAllocs = 1, sizeof_StringBuf = 16 \<rparr>,
            [Some 4100, Some 4100], [Char_is (Chr CHR ''X'')])
   \<and> run2_full (cow2_init, [], [])
        [Common New, Common (App 0 CHR ''X''), Common (Idx 0 0), Common New, Swap 0 1,
         Common (Copy 0)]
     = Inr (\<lparr> mem = [None,
                     Some \<lparr> LEN = 4, USED = 1, REFS = - 1,
                            BUF = [Some CHR ''X'', None, None, None] \<rparr>,
                     Some \<lparr> LEN = 0, USED = 0, REFS = 2, BUF = [] \<rparr>],
              nCopies2 = 1, nAllocs2 = 3 \<rparr>,
            [Some 3, Some 2, Some 3], [Char_is (Chr CHR ''X'')])"
proof (intro conjI)
  show "run COW_Unsafe (cow_init 4096 16, [], []) [New, App 0 CHR ''X'', Idx 0 0]
     = Inr (\<lparr> fa = \<lparr> n_fa = 16, buf_fa = 4096, hdr = (\<lambda>i. 0)(0 := 1) \<rparr>,
              heap = (\<lambda>p. None)(4100 \<mapsto> \<lparr> buf = Some [Some CHR ''X'', None, None, None],
                                             len = 4, used = 1, refs = - 1 \<rparr>),
              nCopies = 0, nAllocs = 1, sizeof_StringBuf = 16 \<rparr>,
            [Some 4100], [Char_is (Chr CHR ''X'')])"
    by (simp add: arena_eval buffer_eval cow_eval numeral_2_eq_2)
  show "run COW_Unsafe (cow_init 4096 16, [], [])
        [New, App 0 CHR ''X'', Idx 0 0, App 0 CHR ''Y'', Copy 0]
     = Inr (\<lparr> fa = \<lparr> n_fa = 16, buf_fa = 4096, hdr = (\<lambda>i. 0)(0 := 1) \<rparr>,
              heap = (\<lambda>p. None)(4100 \<mapsto> \<lparr> buf = Some [Some CHR ''X'', Some CHR ''Y'', None, None],
                                             len = 4, used = 2, refs = 2 \<rparr>),
              nCopies = 1, nAllocs = 1, sizeof_StringBuf = 16 \<rparr>,
            [Some 4100, Some 4100], [Char_is (Chr CHR ''X'')])"
    by (simp add: arena_eval buffer_eval cow_eval numeral_2_eq_2)
  show "run2_full (cow2_init, [], [])
        [Common New, Common (App 0 CHR ''X''), Common (Idx 0 0), Common New, Swap 0 1,
         Common (Copy 0)]
     = Inr (\<lparr> mem = [None,
                     Some \<lparr> LEN = 4, USED = 1, REFS = - 1,
                            BUF = [Some CHR ''X'', None, None, None] \<rparr>,
                     Some \<lparr> LEN = 0, USED = 0, REFS = 2, BUF = [] \<rparr>],
              nCopies2 = 1, nAllocs2 = 3 \<rparr>,
            [Some 3, Some 2, Some 3], [Char_is (Chr CHR ''X'')])"
    by (simp add: arena_eval buffer_eval cow2_eval)
qed

section \<open>Round trips: the buffers\<close>

lemma holds_cells_memcpy:
  assumes "holds_cells cs l u xs" and "u \<le> m"
  shows "holds_cells (memcpy_cells (new_char_array m) cs u) m u xs"
  using assms by (auto simp add: holds_cells_def memcpy_cells_def new_char_array_def)

lemma holds_cells_put:
  assumes "holds_cells cs l u xs" and "u < l"
  shows "holds_cells (cs[u := Some c]) l (Suc u) (xs @ [c])"
proof -
  from assms have u: "u = length xs" and l: "length cs = l"
    and cs: "cs = map Some xs @ replicate (l - u) None"
    by (auto simp add: holds_cells_def)
  from assms(2) have "l - u = Suc (l - Suc u)" by simp
  then have r: "replicate (l - u) (None :: char option) = None # replicate (l - Suc u) None"
    by simp
  have "cs[u := Some c] = map Some xs @ Some c # replicate (l - Suc u) None"
    by (subst cs) (simp add: u [symmetric] list_update_append r)
  then show ?thesis
    using u l assms(2) by (simp add: holds_cells_def)
qed

lemma holds_cells_read:
  assumes "holds_cells cs l u xs"
  shows "peek (Some cs) i
           = (if i < length xs then Chr (xs ! i) else if i < l then Indeterminate else Wild)"
proof -
  from assms have u: "u = length xs" and l: "length cs = l" and ul: "u \<le> l"
    and cs: "cs = map Some xs @ replicate (l - u) None"
    by (auto simp add: holds_cells_def)
  have "cs ! i = Some (xs ! i)" if "i < length xs"
    using that by (subst cs) (simp add: nth_append)
  moreover have "cs ! i = None" if "\<not> i < length xs" and "i < l"
    using that u by (subst cs) (simp add: nth_append)
  ultimately show ?thesis using l u ul by (auto simp add: peek_def)
qed

lemma holds_cells_peek:
  assumes "holds_cells cs l u xs" and "i < length xs"
  shows "peek (Some cs) i = Chr (xs ! i)"
  using holds_cells_read [OF assms(1), of i] assms(2) by simp

lemma holds_refs [simp]: "holds (sb\<lparr> refs := r \<rparr>) xs = holds sb xs"
  by (simp add: holds_def split: option.splits)

lemma grown_size: "l < n \<Longrightarrow> n \<le> round_len (needed_size l n) \<and> round_len (needed_size l n) \<noteq> 0"
  using round_len_ge [of "needed_size l n"] needed_size_ge [of n l] by auto

lemma grow_ge: "n \<le> grow l n"
  using grown_size [of l n] by (simp add: grow_def)

lemma grow_same: "n \<le> l \<Longrightarrow> grow l n = l"
  by (simp add: grow_def)

lemma cap_ge: "k \<le> cap k"
  by (cases k) (simp_all add: grow_ge)

lemma Reserve_holds:
  assumes "holds sb xs"
  shows "holds (fst (Reserve sb n nA)) xs" and "n \<le> len (fst (Reserve sb n nA))"
    and "refs (fst (Reserve sb n nA)) = refs sb"
    and "len (fst (Reserve sb n nA)) = grow (len sb) n"
proof -
  show "refs (fst (Reserve sb n nA)) = refs sb"
    by (simp add: Reserve_def Let_def)
  show "holds (fst (Reserve sb n nA)) xs"
  proof (cases "len sb < n")
    case False
    with assms show ?thesis by (simp add: Reserve_def)
  next
    case True
    note g = grown_size [OF True]
    show ?thesis
    proof (cases "buf sb")
      case None
      with assms True g show ?thesis
        by (simp add: Reserve_def Let_def holds_def holds_cells_def new_char_array_def)
    next
      case (Some cs)
      with assms have h: "holds_cells cs (len sb) (used sb) xs" by (simp add: holds_def)
      then have "used sb \<le> len sb" by (simp add: holds_cells_def)
      with True g have "used sb \<le> round_len (needed_size (len sb) n)" by simp
      from holds_cells_memcpy [OF h this] Some True g show ?thesis
        by (simp add: Reserve_def Let_def holds_def memcpy_def)
    qed
  qed
  show "len (fst (Reserve sb n nA)) = grow (len sb) n"
    by (simp add: Reserve_def Let_def grow_def)
  then show "n \<le> len (fst (Reserve sb n nA))"
    by (simp add: grow_ge)
qed

lemma holds_used:
  assumes "holds sb xs"
  shows "used sb = length xs"
  using assms by (auto simp add: holds_def holds_cells_def split: option.splits)

lemma put_char_holds:
  assumes "holds sb xs" and "used sb < len sb"
  shows "\<exists>sb'. put_char sb c = Inr sb' \<and> holds sb' (xs @ [c]) \<and> refs sb' = refs sb
           \<and> len sb' = len sb"
proof (cases "buf sb")
  case None
  with assms show ?thesis by (simp add: holds_def)
next
  case (Some cs)
  with assms have h: "holds_cells cs (len sb) (used sb) xs" by (simp add: holds_def)
  then have l: "length cs = len sb" by (simp add: holds_cells_def)
  from holds_cells_put [OF h assms(2), of c] Some l assms(2) show ?thesis
    by (simp add: put_char_def holds_def)
qed

lemma Append_holds:
  assumes sb: "heap st s = Some sb" and one: "refs sb \<le> 1" and h: "holds sb xs"
  shows "\<exists>st' sb'. Append v st s c = Inr (s, st') \<and> heap st' s = Some sb'
           \<and> refs sb' = 1 \<and> holds sb' (xs @ [c])
           \<and> len sb' = grow (len sb) (Suc (length xs))"
proof -
  let ?r = "fst (Reserve sb (used sb + 1) (nAllocs st))"
  let ?st1 = "st\<lparr> heap := (heap st)(s \<mapsto> ?r\<lparr> refs := 1 \<rparr>),
                   nAllocs := snd (Reserve sb (used sb + 1) (nAllocs st)) \<rparr>"
  have eu: "EnsureUnique v st s (used sb + 1) = Inr (s, ?st1)"
    using sb one by (rule EnsureUnique_unshared)
  note r = Reserve_holds [OF h, of "used sb + 1" "nAllocs st"]
  have u: "used ?r = used sb" by (simp add: Reserve_def Let_def)
  have h1: "holds (?r\<lparr> refs := 1 \<rparr>) xs" using r(1) by simp
  have "used (?r\<lparr> refs := 1 \<rparr>) < len (?r\<lparr> refs := 1 \<rparr>)" using r(2) u by simp
  from put_char_holds [OF h1 this, of c] obtain sb' where
    pc: "put_char (?r\<lparr> refs := 1 \<rparr>) c = Inr sb'" and h': "holds sb' (xs @ [c])"
    and r': "refs sb' = 1" and l': "len sb' = len ?r"
    by auto
  have "Append v st s c = Inr (s, ?st1\<lparr> heap := (heap ?st1)(s \<mapsto> sb') \<rparr>)"
    unfolding Append_def using sb pc eu by simp
  moreover have "len sb' = grow (len sb) (Suc (length xs))"
    using l' r(4) holds_used [OF h] by simp
  ultimately show ?thesis using h' r' by auto
qed

lemma index_holds:
  assumes sb: "heap st s = Some sb" and one: "refs sb \<le> 1" and h: "holds sb xs"
  shows "\<exists>st'. index v st s i = Inr (s, st', (s, i))
           \<and> heap st' s = Some (sb\<lparr> refs := - 1 \<rparr>)
           \<and> load st' (s, i)
               = (if i < length xs then Chr (xs ! i)
                  else if i < len sb then Indeterminate else Wild)"
proof -
  let ?st1 = "st\<lparr> heap := (heap st)(s \<mapsto> sb\<lparr> refs := 1 \<rparr>), nAllocs := nAllocs st \<rparr>"
  let ?st' = "?st1\<lparr> heap := (heap ?st1)(s \<mapsto> sb\<lparr> refs := - 1 \<rparr>) \<rparr>"
  have eu: "EnsureUnique v st s (len sb) = Inr (s, ?st1)"
    using EnsureUnique_unshared [OF sb one, of v "len sb"] by (simp add: Reserve_enough)
  have ix: "index v st s i = Inr (s, ?st', (s, i))"
    using sb by (simp add: index_def EnsureUnshareable_def eu)
  have "load ?st' (s, i)
          = (if i < length xs then Chr (xs ! i) else if i < len sb then Indeterminate else Wild)"
  proof (cases "buf sb")
    case None
    with h show ?thesis by (simp add: holds_def load_def peek_def)
  next
    case (Some cs)
    with h have "holds_cells cs (len sb) (used sb) xs" by (simp add: holds_def)
    from holds_cells_read [OF this, of i] Some show ?thesis by (simp add: load_def)
  qed
  with ix show ?thesis by auto
qed

section \<open>Round trips: the copy-on-write namespaces of common-test.h\<close>

lemma run_append:
  "run v cfg (xs @ ys) = seq (run v cfg xs) (\<lambda>cfg'. run v cfg' ys)"
proof (induction xs arbitrary: cfg)
  case Nil
  show ?case by simp
next
  case (Cons x xs)
  show ?case by (cases "step v cfg x") (simp_all add: Cons.IH)
qed

lemma var_single [simp]: "var [Some s] 0 = Inr s"
  by (simp add: var_def)

lemma run_Appends:
  assumes "heap st s = Some sb" and "refs sb \<le> 1" and "holds sb xs"
    and "len sb = cap (length xs)"
  shows "\<exists>st' sb'. run v (st, [Some s], tr) (map (App 0) cs) = Inr (st', [Some s], tr)
           \<and> heap st' s = Some sb' \<and> refs sb' \<le> 1 \<and> holds sb' (xs @ cs)
           \<and> len sb' = cap (length (xs @ cs))"
  using assms
proof (induction cs arbitrary: st sb xs)
  case Nil
  then show ?case by simp
next
  case (Cons c cs)
  from Append_holds [OF Cons.prems(1,2,3), of v c] obtain st1 sb1 where
    a: "Append v st s c = Inr (s, st1)" and sb1: "heap st1 s = Some sb1"
    and r1: "refs sb1 = 1" and h1: "holds sb1 (xs @ [c])"
    and l1: "len sb1 = grow (len sb) (Suc (length xs))"
    by blast
  from r1 have le: "refs sb1 \<le> 1" by simp
  from l1 Cons.prems(4) have c1: "len sb1 = cap (length (xs @ [c]))" by simp
  from Cons.IH [OF sb1 le h1 c1] obtain st' sb' where
    r: "run v (st1, [Some s], tr) (map (App 0) cs) = Inr (st', [Some s], tr)"
    and k: "heap st' s = Some sb'" "refs sb' \<le> 1" "holds sb' ((xs @ [c]) @ cs)"
      "len sb' = cap (length ((xs @ [c]) @ cs))"
    by blast
  have "run v (st, [Some s], tr) (map (App 0) (c # cs)) = Inr (st', [Some s], tr)"
    using a r by simp
  with k show ?case by auto
qed

lemma run_Idxs:
  assumes "heap st s = Some sb" and "refs sb \<le> 1" and "holds sb xs"
    and "len sb = cap (length xs)"
  shows "\<exists>st'. run v (st, [Some s], tr) (map (Idx 0) ns)
             = Inr (st', [Some s], tr @ map (\<lambda>i. Char_is (slot xs i)) ns)"
  using assms
proof (induction ns arbitrary: st sb tr)
  case Nil
  then show ?case by simp
next
  case (Cons i ns)
  from index_holds [OF Cons.prems(1,2,3), of v i] Cons.prems(4) obtain st1 where
    a: "index v st s i = Inr (s, st1, (s, i))"
    and sb1: "heap st1 s = Some (sb\<lparr> refs := - 1 \<rparr>)"
    and l: "load st1 (s, i) = slot xs i"
    by (auto simp add: slot_def)
  have le: "refs (sb\<lparr> refs := - 1 \<rparr>) \<le> 1" by simp
  have h1: "holds (sb\<lparr> refs := - 1 \<rparr>) xs" using Cons.prems(3) by simp
  have c1: "len (sb\<lparr> refs := - 1 \<rparr>) = cap (length xs)" using Cons.prems(4) by simp
  from Cons.IH [OF sb1 le h1 c1, of "tr @ [Char_is (slot xs i)]"] obtain st' where
    r: "run v (st1, [Some s], tr @ [Char_is (slot xs i)]) (map (Idx 0) ns)
          = Inr (st', [Some s], (tr @ [Char_is (slot xs i)]) @ map (\<lambda>i. Char_is (slot xs i)) ns)"
    by blast
  have "run v (st, [Some s], tr) (map (Idx 0) (i # ns))
          = Inr (st', [Some s], tr @ map (\<lambda>i. Char_is (slot xs i)) (i # ns))"
    using a l r by simp
  then show ?case by blast
qed

lemma map_nth_all: "map (\<lambda>i. f (xs ! i)) [0..<length xs] = map f xs"
proof -
  have "map (\<lambda>i. f (xs ! i)) [0..<length xs] = map f (map ((!) xs) [0..<length xs])"
    by simp
  then show ?thesis by (simp only: map_nth)
qed

lemma slots_in_range:
  "map (\<lambda>i. Char_is (slot cs i)) [0..<length cs] = map (\<lambda>c. Char_is (Chr c)) cs"
proof -
  have "map (\<lambda>i. Char_is (slot cs i)) [0..<length cs]
          = map (\<lambda>i. Char_is (Chr (cs ! i))) [0..<length cs]"
    by (simp add: slot_def)
  then show ?thesis by (simp only: map_nth_all [of "\<lambda>c. Char_is (Chr c)" cs])
qed

lemma free_count_pos: "0 < free_count h \<longleftrightarrow> (\<exists>i < FastArena_size. h i = 0)"
proof -
  have "0 < free_count h \<longleftrightarrow> filter (\<lambda>i. h i = 0) [0..<FastArena_size] \<noteq> []"
    by (simp add: free_count_def)
  also have "\<dots> \<longleftrightarrow> (\<exists>i < FastArena_size. h i = 0)"
    by (auto simp add: filter_empty_conv)
  finally show ?thesis .
qed

lemma Allocate_fault: "Allocate A n = Inl e \<Longrightarrow> e = bad_alloc"
  by (cases rule: Allocate_cases [of A n]) simp_all

lemma Allocate_succeeds_iff:
  "(\<exists>r. Allocate A n = Inr r) \<longleftrightarrow> n \<le> n_fa A \<and> 0 < free_count (hdr A)"
proof -
  have "(\<exists>r. Allocate A n = Inr r) \<longleftrightarrow> Allocate A n \<noteq> Inl bad_alloc"
  proof (cases "Allocate A n")
    case (Inl e)
    with Allocate_fault [OF Inl] show ?thesis by simp
  next
    case (Inr r)
    then show ?thesis by simp
  qed
  also have "\<dots> \<longleftrightarrow> n \<le> n_fa A \<and> 0 < free_count (hdr A)"
    unfolding Allocate_Inl_iff free_count_pos block_free_def by auto
  finally show ?thesis .
qed

lemma cow_reads_after:
  "reads_after (In_COW w st) cs ns =
     (if builds (In_COW w st) (length cs)
      then Inr (map (\<lambda>i. Char_is (slot cs i)) ns)
      else Inl bad_alloc)"
proof (cases "Allocate (fa st) (sizeof_StringBuf st)")
  case (Inl e)
  from Allocate_fault [OF Inl] Inl have f: "Allocate (fa st) (sizeof_StringBuf st) = Inl bad_alloc"
    by simp
  then have nb: "\<not> builds (In_COW w st) (length cs)"
    using Allocate_succeeds_iff [of "fa st" "sizeof_StringBuf st"] by (simp add: builds_def)
  have "run w (st, [], []) (build_ops cs @ map (Idx 0) ns) = Inl bad_alloc"
    by (simp add: build_ops_def String_ctor_def new_StringBuf_def f)
  with nb show ?thesis by (simp add: reads_after_def)
next
  case (Inr r)
  then have b: "builds (In_COW w st) (length cs)"
    using Allocate_succeeds_iff [of "fa st" "sizeof_StringBuf st"] by (auto simp add: builds_def)
  obtain p A where r: "r = (p, A)" by (cases r)
  let ?S = "st\<lparr> fa := A, heap := (heap st)(p \<mapsto> StringBuf_ctor) \<rparr>"
  have n: "run w (st, [], []) [New] = Inr (?S, [Some p], [])"
    using Inr r by (simp add: String_ctor_def new_StringBuf_def)
  have sb: "heap ?S p = Some StringBuf_ctor" by simp
  have one: "refs StringBuf_ctor \<le> 1" by (simp add: StringBuf_ctor_def)
  have h: "holds StringBuf_ctor []" by (simp add: holds_def StringBuf_ctor_def)
  have c0: "len StringBuf_ctor = cap (length ([] :: string))" by (simp add: StringBuf_ctor_def)
  from run_Appends [OF sb one h c0, of w "[]" cs] obtain st1 sb1 where
    a: "run w (?S, [Some p], []) (map (App 0) cs) = Inr (st1, [Some p], [])"
    and k1: "heap st1 p = Some sb1" "refs sb1 \<le> 1" "holds sb1 cs" "len sb1 = cap (length cs)"
    by auto
  from run_Idxs [OF k1, of w "[]" ns] obtain st2 where
    i: "run w (st1, [Some p], []) (map (Idx 0) ns)
          = Inr (st2, [Some p], map (\<lambda>i. Char_is (slot cs i)) ns)"
    by auto
  have "run w (st, [], []) (build_ops cs @ map (Idx 0) ns)
          = Inr (st2, [Some p], map (\<lambda>i. Char_is (slot cs i)) ns)"
    unfolding build_ops_def
    using run_append [of w "(st, [], [])" "[New]" "map (App 0) cs @ map (Idx 0) ns"]
      run_append [of w "(?S, [Some p], [])" "map (App 0) cs" "map (Idx 0) ns"]
      n a i
    by simp
  with b show ?thesis by (simp add: reads_after_def)
qed

section \<open>Round trips: COW_AtomicInt2\<close>

lemma holds2_refs [simp]: "holds2 (g\<lparr> REFS := r \<rparr>) xs = holds2 g xs"
  by (simp add: holds2_def)

lemma holds2_cloned:
  assumes "holds2 g xs" and "LEN g < n"
  shows "holds2 (cloned g n) xs" and "n \<le> LEN (cloned g n)"
    and "LEN (cloned g n) = grow (LEN g) n"
proof -
  note gs = grown_size [OF assms(2)]
  from assms(1) have "USED g \<le> LEN g" by (auto simp add: holds2_def holds_cells_def)
  with assms(2) gs have "USED g \<le> round_len (needed_size (LEN g) n)" by simp
  from holds_cells_memcpy [OF assms(1) [unfolded holds2_def] this]
  show "holds2 (cloned g n) xs" by (simp add: holds2_def cloned_def Let_def)
  from gs show "n \<le> LEN (cloned g n)" by (simp add: cloned_def Let_def)
  from assms(2) show "LEN (cloned g n) = grow (LEN g) n"
    by (simp add: cloned_def Let_def grow_def)
qed

lemma EnsureUnique2_unshared:
  assumes g: "at2 st s = Some g" and one: "REFS g \<le> 1"
  shows "\<exists>d st'. EnsureUnique2 st s n = Inr (d, st')
           \<and> at2 st' d = Some ((if LEN g < n then cloned g n else g)\<lparr> REFS := 1 \<rparr>)
           \<and> (\<not> LEN g < n \<longrightarrow> d = s)"
proof (cases "LEN g < n")
  case grow: True
  note tl = live_not_next [OF g]
  let ?st1 = "snd (new_chars (st\<lparr> nAllocs2 := nAllocs2 st + 1 \<rparr>) (cloned g n))"
  let ?p = "Suc (length (mem st))"
  have cl: "Clone st s n = Inr (?p, ?st1)"
    using Clone_eq [OF g, of n] by (simp add: new_chars_def)
  have t1: "at2 ?st1 s = Some g" using tl g by (simp add: at2_new_chars)
  from delete_chars_live [OF t1] obtain st2 where del: "delete_chars ?st1 s = Inr st2" ..
  have p2: "at2 st2 ?p = Some (cloned g n)"
    using tl by (simp add: at2_delete_chars [OF del] at2_new_chars)
  from g one grow cl del p2
  have "EnsureUnique2 st s n = Inr (?p, put2 st2 ?p ((cloned g n)\<lparr> REFS := 1 \<rparr>))"
    by (simp add: EnsureUnique2_def Reserve2_def)
  moreover have "at2 (put2 st2 ?p ((cloned g n)\<lparr> REFS := 1 \<rparr>)) ?p = Some ((cloned g n)\<lparr> REFS := 1 \<rparr>)"
    using p2 by (rule put2_at2_same)
  ultimately show ?thesis using grow by auto
next
  case keep: False
  from g one keep have "EnsureUnique2 st s n = Inr (s, put2 st s (g\<lparr> REFS := 1 \<rparr>))"
    by (simp add: EnsureUnique2_def Reserve2_def)
  moreover have "at2 (put2 st s (g\<lparr> REFS := 1 \<rparr>)) s = Some (g\<lparr> REFS := 1 \<rparr>)"
    using g by (rule put2_at2_same)
  ultimately show ?thesis using keep by auto
qed

lemma put_char2_holds:
  assumes "holds2 g xs" and "USED g < LEN g"
  shows "\<exists>g'. put_char2 g c = Inr g' \<and> holds2 g' (xs @ [c]) \<and> REFS g' = REFS g
           \<and> LEN g' = LEN g"
proof -
  from assms(1) have l: "length (BUF g) = LEN g" by (auto simp add: holds2_def holds_cells_def)
  from holds_cells_put [OF assms(1) [unfolded holds2_def] assms(2), of c] l assms(2)
  show ?thesis by (simp add: put_char2_def holds2_def)
qed

lemma holds2_used:
  assumes "holds2 g xs"
  shows "USED g = length xs"
  using assms by (simp add: holds2_def holds_cells_def)

lemma Append2_holds:
  assumes g: "at2 st s = Some g" and one: "REFS g \<le> 1" and h: "holds2 g xs"
  shows "\<exists>d st' g'. Append2 st s c = Inr (d, st') \<and> at2 st' d = Some g'
           \<and> REFS g' = 1 \<and> holds2 g' (xs @ [c])
           \<and> LEN g' = grow (LEN g) (Suc (length xs))"
proof -
  let ?n = "USED g + 1"
  let ?g1 = "(if LEN g < ?n then cloned g ?n else g)\<lparr> REFS := 1 \<rparr>"
  from EnsureUnique2_unshared [OF g one, of ?n] obtain d st1 where
    eu: "EnsureUnique2 st s ?n = Inr (d, st1)" and g1: "at2 st1 d = Some ?g1"
    by blast
  have h1: "holds2 ?g1 xs" and big: "USED ?g1 < LEN ?g1" and l1: "LEN ?g1 = grow (LEN g) ?n"
  proof -
    show "holds2 ?g1 xs" using h holds2_cloned(1) [of g xs ?n] by simp
    have "USED (cloned g ?n) = USED g" by (simp add: cloned_def Let_def)
    then show "USED ?g1 < LEN ?g1" using holds2_cloned(2) [of g xs ?n] h by auto
    show "LEN ?g1 = grow (LEN g) ?n"
      using holds2_cloned(3) [of g xs ?n] h by (auto simp add: grow_def)
  qed
  from put_char2_holds [OF h1 big, of c] obtain g' where
    pc: "put_char2 ?g1 c = Inr g'" and h': "holds2 g' (xs @ [c])" and r': "REFS g' = 1"
    and l': "LEN g' = LEN ?g1"
    by auto
  have "Append2 st s c = Inr (d, put2 st1 d g')"
    unfolding Append2_def using g eu g1 pc by simp
  moreover have "at2 (put2 st1 d g') d = Some g'"
    using g1 by (rule put2_at2_same)
  moreover have "LEN g' = grow (LEN g) (Suc (length xs))"
    using l' l1 holds2_used [OF h] by simp
  ultimately show ?thesis using h' r' by blast
qed

lemma index2_holds:
  assumes g: "at2 st s = Some g" and one: "REFS g \<le> 1" and h: "holds2 g xs"
  shows "\<exists>st'. index2 st s i = Inr (s, st', (s, i))
           \<and> at2 st' s = Some (g\<lparr> REFS := - 1 \<rparr>)
           \<and> load2 st' (s, i)
               = (if i < length xs then Chr (xs ! i)
                  else if i < LEN g then Indeterminate else Wild)"
proof -
  let ?st1 = "put2 st s (g\<lparr> REFS := 1 \<rparr>)"
  let ?st' = "put2 ?st1 s (g\<lparr> REFS := - 1 \<rparr>)"
  have eu: "EnsureUnique2 st s (LEN g) = Inr (s, ?st1)"
    using g one by (simp add: EnsureUnique2_def Reserve2_def)
  have s1: "at2 ?st1 s = Some (g\<lparr> REFS := 1 \<rparr>)"
    using g by (rule put2_at2_same)
  have ix: "index2 st s i = Inr (s, ?st', (s, i))"
    using g eu s1 by (simp add: index2_def EnsureUnshareable2_def)
  have s': "at2 ?st' s = Some (g\<lparr> REFS := - 1 \<rparr>)"
    using s1 by (rule put2_at2_same)
  have "load2 ?st' (s, i)
          = (if i < length xs then Chr (xs ! i) else if i < LEN g then Indeterminate else Wild)"
    using holds_cells_read [OF h [unfolded holds2_def], of i] by (simp add: load2_def s')
  with ix s' show ?thesis by blast
qed

lemma run2_append:
  "run2 cfg (xs @ ys) = seq (run2 cfg xs) (\<lambda>cfg'. run2 cfg' ys)"
proof (induction xs arbitrary: cfg)
  case Nil
  show ?case by simp
next
  case (Cons x xs)
  show ?case by (cases "step2 cfg x") (simp_all add: Cons.IH)
qed

lemma run2_Appends:
  assumes "at2 st s = Some g" and "REFS g \<le> 1" and "holds2 g xs"
    and "LEN g = cap (length xs)"
  shows "\<exists>st' d g'. run2 (st, [Some s], tr) (map (App 0) cs) = Inr (st', [Some d], tr)
           \<and> at2 st' d = Some g' \<and> REFS g' \<le> 1 \<and> holds2 g' (xs @ cs)
           \<and> LEN g' = cap (length (xs @ cs))"
  using assms
proof (induction cs arbitrary: st s g xs)
  case Nil
  then show ?case by simp
next
  case (Cons c cs)
  from Append2_holds [OF Cons.prems(1,2,3), of c] obtain d1 st1 g1 where
    a: "Append2 st s c = Inr (d1, st1)" and g1: "at2 st1 d1 = Some g1"
    and r1: "REFS g1 = 1" and h1: "holds2 g1 (xs @ [c])"
    and l1: "LEN g1 = grow (LEN g) (Suc (length xs))"
    by blast
  from r1 have le: "REFS g1 \<le> 1" by simp
  from l1 Cons.prems(4) have c1: "LEN g1 = cap (length (xs @ [c]))" by simp
  from Cons.IH [OF g1 le h1 c1] obtain st' d g' where
    r: "run2 (st1, [Some d1], tr) (map (App 0) cs) = Inr (st', [Some d], tr)"
    and k: "at2 st' d = Some g'" "REFS g' \<le> 1" "holds2 g' ((xs @ [c]) @ cs)"
      "LEN g' = cap (length ((xs @ [c]) @ cs))"
    by blast
  have "run2 (st, [Some s], tr) (map (App 0) (c # cs)) = Inr (st', [Some d], tr)"
    using a r by simp
  with k show ?case by auto
qed

lemma run2_Idxs:
  assumes "at2 st s = Some g" and "REFS g \<le> 1" and "holds2 g xs"
    and "LEN g = cap (length xs)"
  shows "\<exists>st'. run2 (st, [Some s], tr) (map (Idx 0) ns)
             = Inr (st', [Some s], tr @ map (\<lambda>i. Char_is (slot xs i)) ns)"
  using assms
proof (induction ns arbitrary: st g tr)
  case Nil
  then show ?case by simp
next
  case (Cons i ns)
  from index2_holds [OF Cons.prems(1,2,3), of i] Cons.prems(4) obtain st1 where
    a: "index2 st s i = Inr (s, st1, (s, i))"
    and g1: "at2 st1 s = Some (g\<lparr> REFS := - 1 \<rparr>)"
    and l: "load2 st1 (s, i) = slot xs i"
    by (auto simp add: slot_def)
  have le: "REFS (g\<lparr> REFS := - 1 \<rparr>) \<le> 1" by simp
  have h1: "holds2 (g\<lparr> REFS := - 1 \<rparr>) xs" using Cons.prems(3) by simp
  have c1: "LEN (g\<lparr> REFS := - 1 \<rparr>) = cap (length xs)" using Cons.prems(4) by simp
  from Cons.IH [OF g1 le h1 c1, of "tr @ [Char_is (slot xs i)]"] obtain st' where
    r: "run2 (st1, [Some s], tr @ [Char_is (slot xs i)]) (map (Idx 0) ns)
          = Inr (st', [Some s], (tr @ [Char_is (slot xs i)]) @ map (\<lambda>i. Char_is (slot xs i)) ns)"
    by blast
  have "run2 (st, [Some s], tr) (map (Idx 0) (i # ns))
          = Inr (st', [Some s], tr @ map (\<lambda>i. Char_is (slot xs i)) (i # ns))"
    using a l r by simp
  then show ?case by blast
qed

lemma cow2_reads_after:
  "reads_after (In_COW_AtomicInt2 st) cs ns = Inr (map (\<lambda>i. Char_is (slot cs i)) ns)"
proof -
  let ?g = "\<lparr> LEN = 0, USED = 0, REFS = 1, BUF = [] \<rparr>"
  obtain p T where c: "String2_ctor st = (p, T)" by (cases "String2_ctor st")
  have n: "run2 (st, [], []) [New] = Inr (T, [Some p], [])"
    by (simp add: c)
  have g: "at2 T p = Some ?g" using String2_ctor_at2 [OF c] by simp
  have one: "REFS ?g \<le> 1" by simp
  have h: "holds2 ?g []" by (simp add: holds2_def holds_cells_def)
  have c0: "LEN ?g = cap (length ([] :: string))" by simp
  from run2_Appends [OF g one h c0, of "[]" cs] obtain st1 d g1 where
    a: "run2 (T, [Some p], []) (map (App 0) cs) = Inr (st1, [Some d], [])"
    and k1: "at2 st1 d = Some g1" "REFS g1 \<le> 1" "holds2 g1 cs" "LEN g1 = cap (length cs)"
    by auto
  from run2_Idxs [OF k1, of "[]" ns] obtain st2 where
    r: "run2 (st1, [Some d], []) (map (Idx 0) ns)
          = Inr (st2, [Some d], map (\<lambda>i. Char_is (slot cs i)) ns)"
    by auto
  have "run2 (st, [], []) (build_ops cs @ map (Idx 0) ns)
          = Inr (st2, [Some d], map (\<lambda>i. Char_is (slot cs i)) ns)"
    unfolding build_ops_def
    using run2_append [of "(st, [], [])" "[New]" "map (App 0) cs @ map (Idx 0) ns"]
      run2_append [of "(T, [Some p], [])" "map (App 0) cs" "map (Idx 0) ns"]
      n a r
    by simp
  then show ?thesis by (simp add: reads_after_def)
qed

section \<open>Round trips: Plain\<close>

lemma Plain_Reserve_holds:
  assumes "holds_p s xs"
  shows "holds_p (fst (Plain_Reserve s n nA)) xs" and "n \<le> len_p (fst (Plain_Reserve s n nA))"
    and "used_p (fst (Plain_Reserve s n nA)) = used_p s"
    and "len_p (fst (Plain_Reserve s n nA)) = grow (len_p s) n"
proof -
  show "used_p (fst (Plain_Reserve s n nA)) = used_p s"
    by (simp add: Plain_Reserve_def Let_def)
  show "holds_p (fst (Plain_Reserve s n nA)) xs"
  proof (cases "len_p s < n")
    case False
    with assms show ?thesis by (simp add: Plain_Reserve_def)
  next
    case True
    note g = grown_size [OF True]
    show ?thesis
    proof (cases "buf_p s")
      case None
      with assms True g show ?thesis
        by (simp add: Plain_Reserve_def Let_def holds_p_def holds_cells_def new_char_array_def)
    next
      case (Some cs)
      with assms have h: "holds_cells cs (len_p s) (used_p s) xs" by (simp add: holds_p_def)
      then have "used_p s \<le> len_p s" by (auto simp add: holds_cells_def)
      with True g have "used_p s \<le> round_len (needed_size (len_p s) n)" by simp
      from holds_cells_memcpy [OF h this] Some True g show ?thesis
        by (simp add: Plain_Reserve_def Let_def holds_p_def memcpy_def)
    qed
  qed
  show "len_p (fst (Plain_Reserve s n nA)) = grow (len_p s) n"
    by (simp add: Plain_Reserve_def Let_def grow_def)
  then show "n \<le> len_p (fst (Plain_Reserve s n nA))"
    by (simp add: grow_ge)
qed

lemma holds_p_used:
  assumes "holds_p s xs"
  shows "used_p s = length xs"
  using assms by (auto simp add: holds_p_def holds_cells_def split: option.splits)

lemma Plain_Append_holds:
  assumes h: "holds_p s xs"
  shows "\<exists>s' nA'. Plain_Append s c nA = Inr (s', nA') \<and> holds_p s' (xs @ [c])
           \<and> len_p s' = grow (len_p s) (Suc (length xs))"
proof -
  let ?r = "fst (Plain_Reserve s (used_p s + 1) nA)"
  note r = Plain_Reserve_holds [OF h, of "used_p s + 1" nA]
  from r(2,3) have big: "used_p ?r < len_p ?r" by simp
  then obtain cs where cs: "buf_p ?r = Some cs"
    using r(1) by (cases "buf_p ?r") (auto simp add: holds_p_def)
  with r(1) have hc: "holds_cells cs (len_p ?r) (used_p ?r) xs" by (simp add: holds_p_def)
  then have l: "length cs = len_p ?r" by (auto simp add: holds_cells_def)
  let ?s' = "?r\<lparr> buf_p := Some (cs[used_p ?r := Some c]), used_p := used_p ?r + 1 \<rparr>"
  from holds_cells_put [OF hc big, of c]
  have "holds_p ?s' (xs @ [c])"
    by (simp add: holds_p_def)
  moreover have "Plain_Append s c nA = Inr (?s', snd (Plain_Reserve s (used_p s + 1) nA))"
    using cs big l
    by (cases "Plain_Reserve s (used_p s + 1) nA") (simp add: Plain_Append_def)
  moreover have "len_p ?s' = grow (len_p s) (Suc (length xs))"
    using r(4) holds_p_used [OF h] by simp
  ultimately show ?thesis by blast
qed

lemma Plain_appends_holds:
  assumes "holds_p s xs" and "len_p s = cap (length xs)"
  shows "\<exists>s' nA'. Plain_appends s nA cs = Inr (s', nA') \<and> holds_p s' (xs @ cs)
           \<and> len_p s' = cap (length (xs @ cs))"
  using assms
proof (induction cs arbitrary: s nA xs)
  case Nil
  then show ?case by simp
next
  case (Cons c cs)
  from Plain_Append_holds [OF Cons.prems(1), of c nA] obtain s1 nA1 where
    a: "Plain_Append s c nA = Inr (s1, nA1)" and h1: "holds_p s1 (xs @ [c])"
    and l1: "len_p s1 = grow (len_p s) (Suc (length xs))"
    by blast
  from l1 Cons.prems(2) have c1: "len_p s1 = cap (length (xs @ [c]))" by simp
  from Cons.IH [OF h1 c1, of nA1] obtain s' nA' where
    "Plain_appends s1 nA1 cs = Inr (s', nA')" and "holds_p s' ((xs @ [c]) @ cs)"
    and "len_p s' = cap (length ((xs @ [c]) @ cs))"
    by blast
  with a show ?case by simp
qed

lemma Plain_load_holds:
  assumes "holds_p s xs" and "len_p s = cap (length xs)"
  shows "Plain_load s (Plain_index s i) = slot xs i"
proof (cases "buf_p s")
  case None
  with assms show ?thesis
    by (simp add: holds_p_def Plain_load_def Plain_index_def peek_def slot_def)
next
  case (Some cs)
  with assms(1) have "holds_cells cs (len_p s) (used_p s) xs" by (simp add: holds_p_def)
  from holds_cells_read [OF this, of i] Some assms(2) show ?thesis
    by (simp add: Plain_load_def Plain_index_def slot_def)
qed

lemma Plain_reads_after:
  "reads_after (In_Plain nA) cs ns = Inr (map (\<lambda>i. Char_is (slot cs i)) ns)"
proof -
  have "holds_p Plain_ctor []" by (simp add: holds_p_def Plain_ctor_def)
  moreover have "len_p Plain_ctor = cap (length ([] :: string))" by (simp add: Plain_ctor_def)
  ultimately obtain s nA' where
    a: "Plain_appends Plain_ctor nA cs = Inr (s, nA')" and h: "holds_p s cs"
    and l: "len_p s = cap (length cs)"
    using Plain_appends_holds [of Plain_ctor "[]" nA cs] by auto
  show ?thesis
    by (simp add: reads_after_def a Plain_load_holds [OF h l])
qed

section \<open>Round trips: StdString and AtlString\<close>

lemma foldl_Std_Append: "foldl Std_Append s cs = s @ cs"
  by (induction cs arbitrary: s) (simp_all add: Std_Append_def)

lemma foldl_Atl_Append: "foldl Atl_Append s cs = s @ cs"
  by (induction cs arbitrary: s) (simp_all add: Atl_Append_def)

lemma collect_in_range:
  assumes "\<forall>i \<in> set ns. f i = Inr (g i)"
  shows "collect f ns = Inr (map (\<lambda>i. Char_is (g i)) ns)"
  using assms by (induction ns) simp_all

lemma Std_reads_after:
  "reads_after (In_StdString beyond) cs ns = collect (Std_index beyond cs) ns"
  by (simp add: reads_after_def foldl_Std_Append Std_ctor_def)

lemma Atl_reads_after:
  "reads_after (In_AtlString beyond) cs ns = collect (Atl_index beyond cs) ns"
  by (simp add: reads_after_def foldl_Atl_Append Atl_ctor_def)

lemma Std_round_trip:
  "round_trip (In_StdString beyond) cs = Inr (map (\<lambda>c. Char_is (Chr c)) cs)"
proof -
  have "\<forall>i \<in> set [0..<length cs]. Std_index beyond cs i = Inr (Chr (cs ! i))"
    by (simp add: Std_index_def)
  from collect_in_range [OF this] show ?thesis
    by (simp add: round_trip_def Std_reads_after map_nth_all [of "\<lambda>c. Char_is (Chr c)" cs])
qed

lemma Atl_round_trip:
  "round_trip (In_AtlString beyond) cs = Inr (map (\<lambda>c. Char_is (Chr c)) cs)"
proof -
  have "\<forall>i \<in> set [0..<length cs]. Atl_index beyond cs i = Inr (Chr (cs ! i))"
    by (simp add: Atl_index_def)
  from collect_in_range [OF this] show ?thesis
    by (simp add: round_trip_def Atl_reads_after map_nth_all [of "\<lambda>c. Char_is (Chr c)" cs])
qed

section \<open>Round trips: Plain_FastAlloc\<close>

lemma capacities_step:
  assumes "l \<in> {0, 4, 8, 12, 20, 32, 48, 72, 108, 164, 248, 372, 560, 840, 1260, 1892, 2840}"
    and "l < 2840"
  shows "round_len (needed_size l (Suc l))
           \<in> {0, 4, 8, 12, 20, 32, 48, 72, 108, 164, 248, 372, 560, 840, 1260, 1892, 2840 :: nat}"
  using assms by (auto simp add: needed_size_def round_len_def)

lemma cap_values:
  "k \<le> 2840 \<Longrightarrow>
     cap k \<in> {0, 4, 8, 12, 20, 32, 48, 72, 108, 164, 248, 372, 560, 840, 1260, 1892, 2840}"
proof (induction k)
  case 0
  show ?case by simp
next
  case (Suc k)
  then have IH: "cap k \<in> {0, 4, 8, 12, 20, 32, 48, 72, 108, 164, 248, 372, 560, 840, 1260, 1892, 2840}"
    by simp
  show ?case
  proof (cases "cap k < Suc k")
    case True
    with cap_ge [of k] have e: "cap k = k" by simp
    with Suc.prems have "cap k < 2840" by simp
    from capacities_step [OF IH this] True e show ?thesis by (simp add: grow_def)
  next
    case False
    with IH show ?thesis by (simp add: grow_def)
  qed
qed

lemma cap_le_2840: "k \<le> 2840 \<Longrightarrow> cap k \<le> 2840"
  using cap_values [of k] by auto

lemma cap_2840: "cap 2840 = 2840"
  using cap_le_2840 [of 2840] cap_ge [of 2840] by simp

lemma cap_2841: "cap 2841 = 4260"
proof -
  have "cap (Suc 2840) = grow (cap 2840) (Suc 2840)" by (simp only: cap.simps)
  also have "\<dots> = 4260" by (simp add: cap_2840 grow_def needed_size_def round_len_def)
  finally show ?thesis by simp
qed

lemma cap_small:
  assumes "0 < k" and "k \<le> 4"
  shows "cap k = 4"
proof -
  have c: "cap (Suc 0) = 4" "cap (Suc (Suc 0)) = 4" "cap (Suc (Suc (Suc 0))) = 4"
    "cap (Suc (Suc (Suc (Suc 0)))) = 4"
    by (simp_all add: grow_def needed_size_def round_len_def)
  from assms consider "k = Suc 0" | "k = Suc (Suc 0)" | "k = Suc (Suc (Suc 0))"
    | "k = Suc (Suc (Suc (Suc 0)))"
    by arith
  then show ?thesis by cases (simp_all only: c)
qed

lemma reach_cases:
  obtains (none) "free_count h = 0" and "reach h = 0"
  | (one) "free_count h = 1" and "reach h = 4"
  | (two) "2 \<le> free_count h" and "reach h = 2840"
proof -
  consider "free_count h = 0" | "free_count h = 1" | "2 \<le> free_count h" by arith
  then show ?thesis
  proof cases
    case 1
    then show ?thesis using none by (simp add: reach_def)
  next
    case 2
    then show ?thesis using one by (simp add: reach_def)
  next
    case 3
    then show ?thesis using two by (simp add: reach_def)
  qed
qed

lemma cap_le_reach:
  assumes "k \<le> reach h"
  shows "cap k \<le> reach h"
proof (cases h rule: reach_cases)
  case none
  with assms show ?thesis by simp
next
  case one
  with assms show ?thesis by (cases "k = 0") (simp_all add: cap_small)
next
  case two
  with assms show ?thesis by (simp add: cap_le_2840)
qed

lemma free_count_card:
  "free_count h = card {i. i < FastArena_size \<and> h i = 0}"
proof -
  have "free_count h = card ({i. h i = 0} \<inter> set [0..<FastArena_size])"
    unfolding free_count_def by (rule distinct_length_filter) simp
  also have "{i. h i = 0} \<inter> set [0..<FastArena_size] = {i. i < FastArena_size \<and> h i = 0}"
    by auto
  finally show ?thesis .
qed

lemma free_count_two:
  "2 \<le> free_count h \<longleftrightarrow>
     (\<exists>i j. i < FastArena_size \<and> j < FastArena_size \<and> i \<noteq> j \<and> h i = 0 \<and> h j = 0)"
proof -
  let ?F = "{i. i < FastArena_size \<and> h i = 0}"
  have fin: "finite ?F" by simp
  have "2 \<le> free_count h \<longleftrightarrow> \<not> card ?F \<le> Suc 0"
    by (simp add: free_count_card) arith
  also have "\<dots> \<longleftrightarrow> \<not> (\<forall>a \<in> ?F. \<forall>b \<in> ?F. a = b)"
    by (simp only: card_le_Suc0_iff_eq [OF fin])
  also have "\<dots> \<longleftrightarrow> (\<exists>i j. i < FastArena_size \<and> j < FastArena_size \<and> i \<noteq> j \<and> h i = 0 \<and> h j = 0)"
    by auto
  finally show ?thesis .
qed

lemma payload_addr_hdr [simp]: "payload_addr (A\<lparr> hdr := h \<rparr>) i = payload_addr A i"
  by (simp add: payload_addr_def stride_def)

lemma payload_addr_pos: "0 < payload_addr A i"
  using payload_addr_nonnull [of A i] by simp

lemma Fast_Reserve_keep:
  "\<not> len_f s < n \<Longrightarrow> Fast_Reserve ns s n = Inr (s, ns)"
  by (simp add: Fast_Reserve_def)

lemma Fast_Reserve_fails:
  assumes "Allocate (fa_f ns) (round_len (needed_size (len_f s) (Suc (len_f s)))) = Inl bad_alloc"
  shows "Fast_Reserve ns s (Suc (len_f s)) = Inl bad_alloc"
  using assms grown_size [of "len_f s" "Suc (len_f s)"]
  by (simp add: Fast_Reserve_def Let_def)

lemma Fast_Reserve_grow:
  assumes a: "arena_f h ns s" and c: "content_f s xs"
    and fit: "round_len (needed_size (len_f s) (Suc (len_f s))) \<le> 3000"
    and free: "\<exists>j < FastArena_size. hdr (fa_f ns) j = 0"
  shows "\<exists>s' ns'. Fast_Reserve ns s (Suc (len_f s)) = Inr (s', ns')
           \<and> arena_f h ns' s' \<and> content_f s' xs \<and> buf_f s' \<noteq> 0
           \<and> used_f s' = used_f s
           \<and> len_f s' = round_len (needed_size (len_f s) (Suc (len_f s)))"
proof -
  let ?A = "fa_f ns"
  let ?m = "round_len (needed_size (len_f s) (Suc (len_f s)))"
  from a have n3: "n_fa ?A = 3000" by (simp add: arena_f_def)
  have gs: "Suc (len_f s) \<le> ?m" "?m \<noteq> 0" using grown_size [of "len_f s" "Suc (len_f s)"] by simp_all
  have nofail: "Allocate ?A ?m \<noteq> Inl bad_alloc"
    unfolding Allocate_Inl_iff block_free_def using fit free n3 by auto
  obtain j where j: "j < FastArena_size" and fj: "hdr ?A j = 0"
    and al: "Allocate ?A ?m = Inr (payload_addr ?A j, ?A\<lparr> hdr := (hdr ?A)(j := 1) \<rparr>)"
  proof (cases rule: Allocate_cases [of ?A ?m])
    case fail
    with nofail show ?thesis by contradiction
  next
    case (ok i)
    with that show ?thesis by (simp add: block_free_def)
  qed
  let ?A1 = "?A\<lparr> hdr := (hdr ?A)(j := 1) \<rparr>"
  let ?ns1 = "ns\<lparr> fa_f := ?A1, nAllocs_f := nAllocs_f ns + 1 \<rparr>"
  show ?thesis
  proof (cases "buf_f s = 0")
    case True
    with a have z: "hdr ?A = h" by (simp add: arena_f_def)
    from True c have e: "used_f s = 0" "xs = []" by (simp_all add: content_f_def)
    let ?s' = "s\<lparr> buf_f := payload_addr ?A j, chars_f := new_char_array ?m, len_f := ?m \<rparr>"
    have r: "Fast_Reserve ns s (Suc (len_f s)) = Inr (?s', ?ns1)"
      using True gs al by (simp add: Fast_Reserve_def Let_def Deallocate_null)
    have "arena_f h ?ns1 ?s'"
      unfolding arena_f_def using n3 z j fj by (auto simp add: payload_addr_pos payload_addr_nonnull)
    moreover have "content_f ?s' xs"
      using e by (simp add: content_f_def payload_addr_pos payload_addr_nonnull holds_cells_def new_char_array_def)
    ultimately show ?thesis using r by (simp add: payload_addr_pos payload_addr_nonnull)
  next
    case False
    with a obtain i where i: "i < FastArena_size" and bi: "buf_f s = payload_addr ?A i"
      and hi: "h i = 0" and z: "hdr ?A = h(i := 1)"
      by (auto simp add: arena_f_def)
    from False c have hc: "holds_cells (chars_f s) (len_f s) (used_f s) xs"
      by (simp add: content_f_def)
    from z fj have ji: "j \<noteq> i" by auto
    have ul: "used_f s \<le> ?m" using hc gs by (auto simp add: holds_cells_def)
    let ?cs = "memcpy_cells (new_char_array ?m) (chars_f s) (used_f s)"
    let ?A2 = "?A1\<lparr> hdr := (hdr ?A1)(i := hdr ?A1 i - 1) \<rparr>"
    let ?s' = "s\<lparr> buf_f := payload_addr ?A j, chars_f := ?cs, len_f := ?m \<rparr>"
    let ?ns' = "?ns1\<lparr> fa_f := ?A2 \<rparr>"
    have de: "Deallocate ?A1 (buf_f s) = Inr ?A2"
      using Deallocate_payload_addr [OF i, of ?A1] bi by simp
    have r: "Fast_Reserve ns s (Suc (len_f s)) = Inr (?s', ?ns')"
      using False gs al de by (simp add: Fast_Reserve_def Let_def)
    have hj: "h j = 0" using fj z ji by simp
    have "hdr ?A2 = h(j := 1)"
      using z ji hi by (auto simp add: fun_eq_iff)
    then have "arena_f h ?ns' ?s'"
      unfolding arena_f_def using n3 j hj by (auto simp add: payload_addr_pos payload_addr_nonnull)
    moreover have "content_f ?s' xs"
      using holds_cells_memcpy [OF hc ul] by (simp add: content_f_def payload_addr_pos payload_addr_nonnull)
    ultimately show ?thesis using r by (simp add: payload_addr_pos payload_addr_nonnull)
  qed
qed

lemma Fast_put_holds:
  assumes c: "content_f s xs" and nz: "buf_f s \<noteq> 0" and room: "used_f s < len_f s"
  shows "content_f (s\<lparr> chars_f := (chars_f s)[used_f s := Some c], used_f := used_f s + 1 \<rparr>) (xs @ [c])"
    and "used_f s < length (chars_f s)"
proof -
  from c nz have hc: "holds_cells (chars_f s) (len_f s) (used_f s) xs"
    by (simp add: content_f_def)
  then show "used_f s < length (chars_f s)" using room by (auto simp add: holds_cells_def)
  from holds_cells_put [OF hc room, of c] nz
  show "content_f (s\<lparr> chars_f := (chars_f s)[used_f s := Some c], used_f := used_f s + 1 \<rparr>) (xs @ [c])"
    by (simp add: content_f_def)
qed

lemma content_f_used:
  assumes "content_f s xs"
  shows "used_f s = length xs" and "used_f s \<le> len_f s"
  using assms by (auto simp add: content_f_def holds_cells_def split: if_splits)

lemma Fast_Append_holds:
  assumes h: "holds_f h ns s xs" and lt: "length xs < reach h"
  shows "\<exists>s' ns'. Fast_Append ns s c = Inr (s', ns') \<and> holds_f h ns' s' (xs @ [c])"
proof -
  from h have a: "arena_f h ns s" and ct: "content_f s xs"
    and lc: "len_f s = cap (length xs)" and lr: "len_f s \<le> reach h"
    and bx: "buf_f s = 0 \<or> xs \<noteq> []"
    by (simp_all add: holds_f_def)
  note u = content_f_used [OF ct]
  from lt have sr: "Suc (length xs) \<le> reach h" by simp
  note cr = cap_le_reach [OF sr]
  have "\<exists>s1 ns1. Fast_Reserve ns s (used_f s + 1) = Inr (s1, ns1)
          \<and> arena_f h ns1 s1 \<and> content_f s1 xs \<and> buf_f s1 \<noteq> 0
          \<and> used_f s1 = used_f s \<and> len_f s1 = cap (Suc (length xs))"
  proof (cases "len_f s < used_f s + 1")
    case True
    with u have e: "used_f s = len_f s" by simp
    with u lc have ck: "cap (length xs) = length xs" by simp
    have m: "round_len (needed_size (len_f s) (Suc (len_f s))) = cap (Suc (length xs))"
      using lc ck by (simp add: grow_def)
    have fit: "round_len (needed_size (len_f s) (Suc (len_f s))) \<le> 3000"
    proof (cases h rule: reach_cases)
      case none
      with lt show ?thesis by simp
    next
      case one
      with cr m show ?thesis by simp
    next
      case two
      with cr m show ?thesis by simp
    qed
    have free: "\<exists>j < FastArena_size. hdr (fa_f ns) j = 0"
    proof (cases "buf_f s = 0")
      case True
      with a have "hdr (fa_f ns) = h" by (simp add: arena_f_def)
      moreover from lt have "0 < free_count h" by (cases h rule: reach_cases) simp_all
      ultimately show ?thesis by (simp add: free_count_pos)
    next
      case False
      with a obtain i where i: "i < FastArena_size" and z: "hdr (fa_f ns) = h(i := 1)"
        by (auto simp add: arena_f_def)
      from False bx have ne: "0 < length xs" by simp
      have "2 \<le> free_count h"
      proof (cases h rule: reach_cases)
        case none
        with lt show ?thesis by simp
      next
        case one
        with lt ne have "cap (length xs) = 4" by (simp add: cap_small)
        with ck one lt show ?thesis by simp
      next
        case two
        then show ?thesis by simp
      qed
      then obtain p q where pq: "p < FastArena_size" "q < FastArena_size" "p \<noteq> q"
        "h p = 0" "h q = 0"
        unfolding free_count_two by blast
      let ?j = "if p = i then q else p"
      from pq have "?j < FastArena_size \<and> ?j \<noteq> i \<and> h ?j = 0" by auto
      with z have "?j < FastArena_size \<and> hdr (fa_f ns) ?j = 0" by simp
      then show ?thesis by blast
    qed
    from Fast_Reserve_grow [OF a ct fit free] e m show ?thesis by simp
  next
    case False
    then have r: "Fast_Reserve ns s (used_f s + 1) = Inr (s, ns)" by (rule Fast_Reserve_keep)
    from False have room: "used_f s < len_f s" by simp
    with ct have nz: "buf_f s \<noteq> 0" by (cases "buf_f s = 0") (simp_all add: content_f_def)
    from room u lc have "Suc (length xs) \<le> cap (length xs)" by simp
    then have "cap (Suc (length xs)) = cap (length xs)" by (simp add: grow_same)
    with r a ct nz lc show ?thesis by simp
  qed
  then obtain s1 ns1 where r: "Fast_Reserve ns s (used_f s + 1) = Inr (s1, ns1)"
    and a1: "arena_f h ns1 s1" and c1: "content_f s1 xs" and nz: "buf_f s1 \<noteq> 0"
    and u1: "used_f s1 = used_f s" and l1: "len_f s1 = cap (Suc (length xs))"
    by auto
  from u1 u l1 cap_ge [of "Suc (length xs)"] have room: "used_f s1 < len_f s1" by simp
  let ?s' = "s1\<lparr> chars_f := (chars_f s1)[used_f s1 := Some c], used_f := used_f s1 + 1 \<rparr>"
  note p = Fast_put_holds(1) [OF c1 nz room, of c] Fast_put_holds(2) [OF c1 nz room]
  have ap: "Fast_Append ns s c = Inr (?s', ns1)"
    using r nz p(2) by (simp add: Fast_Append_def)
  have "arena_f h ns1 ?s'" using a1 by (simp add: arena_f_def)
  with p(1) l1 cr have "holds_f h ns1 ?s' (xs @ [c])"
    by (simp add: holds_f_def)
  with ap show ?thesis by blast
qed

lemma Fast_Append_full:
  assumes h: "holds_f h ns s xs" and full: "length xs = reach h"
  shows "Fast_Append ns s c = Inl bad_alloc"
proof -
  from h have a: "arena_f h ns s" and ct: "content_f s xs"
    and lc: "len_f s = cap (length xs)" and lr: "len_f s \<le> reach h"
    and bx: "buf_f s = 0 \<or> xs \<noteq> []"
    by (simp_all add: holds_f_def)
  note u = content_f_used [OF ct]
  from u lr full have e: "len_f s = length xs" "used_f s = len_f s" by simp_all
  from a have n3: "n_fa (fa_f ns) = 3000" by (simp add: arena_f_def)
  have m: "round_len (needed_size (len_f s) (Suc (len_f s))) = cap (Suc (length xs))"
    using lc e by (simp add: grow_def)
  have "Allocate (fa_f ns) (round_len (needed_size (len_f s) (Suc (len_f s)))) = Inl bad_alloc"
  proof (cases h rule: reach_cases)
    case none
    with full have "xs = []" by simp
    with bx have "buf_f s = 0" by simp
    with a have "hdr (fa_f ns) = h" by (simp add: arena_f_def)
    moreover from none have "\<not> (\<exists>i < FastArena_size. h i = 0)"
      using free_count_pos [of h] by simp
    ultimately show ?thesis by (simp add: Allocate_Inl_iff block_free_def)
  next
    case one
    with full have "xs \<noteq> []" by auto
    with ct have nz: "buf_f s \<noteq> 0" by (cases "buf_f s = 0") (simp_all add: content_f_def)
    with a obtain i where i: "i < FastArena_size" and hi: "h i = 0"
      and z: "hdr (fa_f ns) = h(i := 1)"
      by (auto simp add: arena_f_def)
    from one have "\<not> 2 \<le> free_count h" by simp
    then have "\<forall>j < FastArena_size. j \<noteq> i \<longrightarrow> h j \<noteq> 0"
      unfolding free_count_two using i hi by blast
    with z have "\<forall>j < FastArena_size. hdr (fa_f ns) j \<noteq> 0" by simp
    then show ?thesis by (simp add: Allocate_Inl_iff block_free_def)
  next
    case two
    with full m n3 show ?thesis by (simp add: Allocate_Inl_iff cap_2841)
  qed
  from Fast_Reserve_fails [OF this] e show ?thesis
    by (simp add: Fast_Append_def)
qed

lemma Fast_appends_append:
  "Fast_appends ns s (xs @ ys) = seq (Fast_appends ns s xs) (\<lambda>(s', ns'). Fast_appends ns' s' ys)"
proof (induction xs arbitrary: ns s)
  case Nil
  show ?case by simp
next
  case (Cons x xs)
  show ?case by (cases "Fast_Append ns s x") (auto simp add: Cons.IH)
qed

lemma Fast_appends_holds:
  assumes "holds_f h ns s xs" and "length xs + length cs \<le> reach h"
  shows "\<exists>s' ns'. Fast_appends ns s cs = Inr (s', ns') \<and> holds_f h ns' s' (xs @ cs)"
  using assms
proof (induction cs arbitrary: ns s xs)
  case Nil
  then show ?case by simp
next
  case (Cons c cs)
  from Cons.prems(2) have lt: "length xs < reach h" by simp
  from Fast_Append_holds [OF Cons.prems(1) lt, of c] obtain s1 ns1 where
    a: "Fast_Append ns s c = Inr (s1, ns1)" and h1: "holds_f h ns1 s1 (xs @ [c])"
    by blast
  from Cons.prems(2) have "length (xs @ [c]) + length cs \<le> reach h" by simp
  from Cons.IH [OF h1 this] obtain s' ns' where
    "Fast_appends ns1 s1 cs = Inr (s', ns')" and "holds_f h ns' s' ((xs @ [c]) @ cs)"
    by blast
  with a show ?case by simp
qed

lemma holds_f_init: "holds_f h (fast_state base h nC nA) Fast_ctor []"
  by (simp add: holds_f_def arena_f_def content_f_def fast_state_def Fast_ctor_def
      FastArena_ctor_def)

lemma Fast_appends_fits:
  assumes "length cs \<le> reach h"
  shows "\<exists>s ns. Fast_appends (fast_state base h nC nA) Fast_ctor cs = Inr (s, ns)
           \<and> holds_f h ns s cs"
proof -
  from assms have "length ([] :: string) + length cs \<le> reach h" by simp
  from Fast_appends_holds [OF holds_f_init [of h base nC nA] this] show ?thesis by simp
qed

lemma Fast_appends_overflows:
  assumes "reach h < length cs"
  shows "Fast_appends (fast_state base h nC nA) Fast_ctor cs = Inl bad_alloc"
proof -
  let ?xs = "take (reach h) cs"
  from assms have lx: "length ?xs = reach h" by simp
  from assms obtain c ys where d: "drop (reach h) cs = c # ys"
    by (cases "drop (reach h) cs") auto
  have split: "cs = ?xs @ c # ys" using d append_take_drop_id [of "reach h" cs] by simp
  from lx have "length ?xs \<le> reach h" by simp
  from Fast_appends_fits [OF this, of base nC nA] obtain s ns where
    a: "Fast_appends (fast_state base h nC nA) Fast_ctor ?xs = Inr (s, ns)"
    and h: "holds_f h ns s ?xs"
    by auto
  from Fast_Append_full [OF h lx, of c] have f: "Fast_Append ns s c = Inl bad_alloc" .
  have "Fast_appends (fast_state base h nC nA) Fast_ctor (?xs @ c # ys) = Inl bad_alloc"
    by (simp add: Fast_appends_append a f)
  with split show ?thesis by simp
qed

lemma Fast_load_holds:
  assumes "holds_f h ns s xs"
  shows "Fast_load s (Fast_index s i) = slot xs i"
proof (cases "buf_f s = 0")
  case True
  with assms show ?thesis
    by (simp add: holds_f_def content_f_def Fast_load_def slot_def)
next
  case False
  from assms have "content_f s xs" and l: "len_f s = cap (length xs)"
    by (simp_all add: holds_f_def)
  with False have "holds_cells (chars_f s) (len_f s) (used_f s) xs" and "len_f s = cap (length xs)"
    by (simp_all add: content_f_def)
  from holds_cells_read [OF this(1), of i] this(2) False show ?thesis
    by (simp add: Fast_load_def Fast_index_def slot_def)
qed

lemma Fast_reads_after:
  "reads_after (In_Plain_FastAlloc base h nC nA) cs ns =
     (if length cs \<le> reach h
      then Inr (map (\<lambda>i. Char_is (slot cs i)) ns)
      else Inl bad_alloc)"
proof (cases "length cs \<le> reach h")
  case True
  from Fast_appends_fits [OF True, of base nC nA] obtain s ns' where
    a: "Fast_appends (fast_state base h nC nA) Fast_ctor cs = Inr (s, ns')"
    and h: "holds_f h ns' s cs"
    by auto
  from True show ?thesis
    by (simp add: reads_after_def a Fast_load_holds [OF h])
next
  case False
  then have "reach h < length cs" by simp
  from Fast_appends_overflows [OF this, of base nC nA] False show ?thesis
    by (simp add: reads_after_def)
qed

section \<open>C7: a string built by Appends reads back in order\<close>

lemma reach_fresh: "reach (\<lambda>i. 0) = 2840"
proof -
  have "\<exists>i j. i < FastArena_size \<and> j < FastArena_size \<and> i \<noteq> j
          \<and> (\<lambda>i. 0 :: int) i = 0 \<and> (\<lambda>i. 0 :: int) j = 0"
    by (intro exI [of _ 0] exI [of _ 1]) (simp add: FastArena_size_def)
  then have "2 \<le> free_count (\<lambda>i. 0)" by (simp only: free_count_two)
  then show ?thesis by (simp add: reach_def)
qed

lemma reach_one_left: "reach (\<lambda>i. if i = 0 then 0 else 1) = 4"
proof -
  let ?h = "\<lambda>i :: nat. if i = 0 then 0 else 1 :: int"
  have "\<exists>i < FastArena_size. ?h i = 0"
    by (intro exI [of _ 0]) (simp add: FastArena_size_def)
  then have one: "0 < free_count ?h" by (simp only: free_count_pos)
  have "\<not> 2 \<le> free_count ?h" unfolding free_count_two by auto
  with one show ?thesis by (simp add: reach_def)
qed

text \<open>
  Claim C7, as amended. In each of the nine namespaces, and in whatever state the
  namespace's statics are, a String is constructed and the characters \<open>c1..ck\<close> are
  appended to it one at a time; then \<^verbatim>\<open>s[0]\<close>, ..., \<^verbatim>\<open>s[k-1]\<close> are read. The reads return
  \<open>c1..ck\<close> in order whenever the String can be built (\<open>builds\<close>), and building it is the
  only thing that can fail, with \<^verbatim>\<open>bad_alloc\<close>:
  \<^item> in Plain, StdString, AtlString and COW_AtomicInt2 it cannot fail;
  \<^item> in COW_Unsafe, COW_AtomicInt, COW_CritSec and COW_Mutex the constructor needs a free
    block of the arena for the StringBuf, and the Appends need nothing of the arena;
  \<^item> in Plain_FastAlloc the character array comes from an arena of 100 chunks of 3000
    bytes, shared by the Strings of the namespace. The capacity grows 4, 8, 12, 20, ...,
    1892, 2840, and growing takes a new block before the old one is released. So \<open>k\<close> may
    be up to 2840 when two blocks are free, up to 4 when one is, and 0 otherwise; the
    Append of character 2841 asks for 4260 bytes, which \<^verbatim>\<open>FastArena::Allocate\<close> refuses.
  Growing the buffer keeps the bytes written before, in every namespace.
\<close>

theorem appended_characters_read_back:
  "round_trip W cs =
     (if builds W (length cs)
      then Inr (map (\<lambda>c. Char_is (Chr c)) cs)
      else Inl bad_alloc)"
proof (cases W)
  case (In_Plain nA)
  then show ?thesis
    by (simp add: round_trip_def Plain_reads_after slots_in_range builds_def)
next
  case (In_Plain_FastAlloc base h nC nA)
  then show ?thesis
    by (simp add: round_trip_def Fast_reads_after slots_in_range builds_def)
next
  case (In_StdString beyond)
  then show ?thesis by (simp add: Std_round_trip builds_def)
next
  case (In_AtlString beyond)
  then show ?thesis by (simp add: Atl_round_trip builds_def)
next
  case (In_COW w st)
  have "reads_after (In_COW w st) cs [0..<length cs] =
          (if builds (In_COW w st) (length cs)
           then Inr (map (\<lambda>c. Char_is (Chr c)) cs) else Inl bad_alloc)"
    by (simp only: cow_reads_after slots_in_range)
  with In_COW show ?thesis by (simp add: round_trip_def)
next
  case (In_COW_AtomicInt2 st)
  then show ?thesis
    by (simp add: round_trip_def cow2_reads_after slots_in_range builds_def)
qed

text \<open>
  The claim as stated fails in Plain_FastAlloc. With the arena all free, the round trip of
  2841 characters ends in \<^verbatim>\<open>bad_alloc\<close>; with one block free (the other 99 held by other
  Strings), so does the round trip of five characters. No read takes place.
\<close>

theorem Plain_FastAlloc_round_trip_counterexample:
  "round_trip (In_Plain_FastAlloc 4096 (\<lambda>i. 0) 0 0) (replicate 2841 CHR ''X'') = Inl bad_alloc
   \<and> round_trip (In_Plain_FastAlloc 4096 (\<lambda>i. if i = 0 then 0 else 1) 0 0) ''Hello''
       = Inl bad_alloc"
  by (simp add: round_trip_def Fast_reads_after reach_fresh reach_one_left)

section \<open>Indexed access at any position\<close>

lemma index_offset_only:
  "index w st s n =
     (case index w st s 0 of Inl e \<Rightarrow> Inl e | Inr (d, st', r) \<Rightarrow> Inr (d, st', (d, n)))"
  by (simp add: index_def seq_def split: option.splits sum.splits prod.splits)

lemma index2_offset_only:
  "index2 st s n =
     (case index2 st s 0 of Inl e \<Rightarrow> Inl e | Inr (d, st', r) \<Rightarrow> Inr (d, st', (d, n)))"
  by (simp add: index2_def seq_def split: option.splits sum.splits prod.splits)

section \<open>C10: what \<^verbatim>\<open>operator[]\<close> does with any index\<close>

text \<open>
  Claim C10, as amended. A String is constructed, the characters \<open>cs\<close> are appended, and
  \<^verbatim>\<open>s[n]\<close> is read, for any \<open>n\<close> whatever.
  \<^item> In Plain, Plain_FastAlloc and the five copy-on-write namespaces the read validates
    nothing and signals nothing: it yields what is at offset \<open>n\<close> of the backing array
    (\<open>slot\<close>), which is the character when \<open>n < Length()\<close>, an indeterminate value when \<open>n\<close>
    is within the capacity, and a location outside the array beyond that.
  \<^item> In StdString and AtlString \<^verbatim>\<open>operator[]\<close> hands \<open>n\<close> to the library's accessor
    (\<^verbatim>\<open>std::string::operator[]\<close>, \<^verbatim>\<open>CStringA::GetAt\<close>) and adds no test of its own: in range
    the result is the character, and out of range it is whatever the accessor does there,
    be it a value or an exception.
  \<^item> In a copy-on-write namespace, in any state at all (the buffer may be shared),
    \<^verbatim>\<open>operator[](n)\<close> succeeds or fails as \<^verbatim>\<open>operator[](0)\<close> does and leaves the same
    state; the reference it returns is slot \<open>n\<close> of the String's buffer. Its only failure
    is that of unsharing.
  The only failure before the read is that of building the String.
\<close>

theorem operator_index_hands_index_on_unchecked:
  "read_at W cs n =
     (if builds W (length cs)
      then (case W of
              In_Plain nA \<Rightarrow> Inr [Char_is (slot cs n)]
            | In_Plain_FastAlloc base h nC nA \<Rightarrow> Inr [Char_is (slot cs n)]
            | In_StdString beyond \<Rightarrow>
                (if n < length cs then Inr [Char_is (Chr (cs ! n))]
                 else (case beyond cs n of Inl e \<Rightarrow> Inl e | Inr r \<Rightarrow> Inr [Char_is r]))
            | In_AtlString beyond \<Rightarrow>
                (if n < length cs then Inr [Char_is (Chr (cs ! n))]
                 else (case beyond cs n of Inl e \<Rightarrow> Inl e | Inr r \<Rightarrow> Inr [Char_is r]))
            | In_COW w st \<Rightarrow> Inr [Char_is (slot cs n)]
            | In_COW_AtomicInt2 st \<Rightarrow> Inr [Char_is (slot cs n)])
      else Inl bad_alloc)
   \<and> index v t s n
       = (case index v t s 0 of Inl e \<Rightarrow> Inl e | Inr (d, t', r) \<Rightarrow> Inr (d, t', (d, n)))
   \<and> index2 t2 s2 n
       = (case index2 t2 s2 0 of Inl e \<Rightarrow> Inl e | Inr (d, t', r) \<Rightarrow> Inr (d, t', (d, n)))"
proof (intro conjI)
  show "index v t s n
          = (case index v t s 0 of Inl e \<Rightarrow> Inl e | Inr (d, t', r) \<Rightarrow> Inr (d, t', (d, n)))"
    by (rule index_offset_only)
  show "index2 t2 s2 n
          = (case index2 t2 s2 0 of Inl e \<Rightarrow> Inl e | Inr (d, t', r) \<Rightarrow> Inr (d, t', (d, n)))"
    by (rule index2_offset_only)
  show "read_at W cs n =
     (if builds W (length cs)
      then (case W of
              In_Plain nA \<Rightarrow> Inr [Char_is (slot cs n)]
            | In_Plain_FastAlloc base h nC nA \<Rightarrow> Inr [Char_is (slot cs n)]
            | In_StdString beyond \<Rightarrow>
                (if n < length cs then Inr [Char_is (Chr (cs ! n))]
                 else (case beyond cs n of Inl e \<Rightarrow> Inl e | Inr r \<Rightarrow> Inr [Char_is r]))
            | In_AtlString beyond \<Rightarrow>
                (if n < length cs then Inr [Char_is (Chr (cs ! n))]
                 else (case beyond cs n of Inl e \<Rightarrow> Inl e | Inr r \<Rightarrow> Inr [Char_is r]))
            | In_COW w st \<Rightarrow> Inr [Char_is (slot cs n)]
            | In_COW_AtomicInt2 st \<Rightarrow> Inr [Char_is (slot cs n)])
      else Inl bad_alloc)"
  proof (cases W)
    case (In_Plain nA)
    then show ?thesis by (simp add: read_at_def Plain_reads_after builds_def)
  next
    case (In_Plain_FastAlloc base h nC nA)
    then show ?thesis by (simp add: read_at_def Fast_reads_after builds_def)
  next
    case (In_StdString beyond)
    then show ?thesis
      by (simp add: read_at_def Std_reads_after seq_def Std_index_def builds_def)
  next
    case (In_AtlString beyond)
    then show ?thesis
      by (simp add: read_at_def Atl_reads_after seq_def Atl_index_def builds_def)
  next
    case (In_COW w st)
    have "reads_after (In_COW w st) cs [n] =
            (if builds (In_COW w st) (length cs)
             then Inr [Char_is (slot cs n)] else Inl bad_alloc)"
      by (simp only: cow_reads_after list.map)
    with In_COW show ?thesis by (simp add: read_at_def)
  next
    case (In_COW_AtomicInt2 st)
    then show ?thesis by (simp add: read_at_def cow2_reads_after builds_def)
  qed
qed

text \<open>
  The claim as stated, that no variant ever signals an out-of-range index, depends for
  AtlString on the library. With \<^verbatim>\<open>GetAt\<close> as ATL defines it, reading position 3 of the
  two-character string \<open>ab\<close> throws.
\<close>

theorem AtlString_index_counterexample:
  "read_at (In_AtlString CSimpleStringT_GetAt) ''ab'' 3 = Inl invalid_arg"
  by (simp add: read_at_def Atl_reads_after seq_def Atl_index_def CSimpleStringT_GetAt_def)

section \<open>C2: COW_AtomicInt2 against COW_AtomicInt\<close>

text \<open>
  Claim C2. The same operations are run in COW_AtomicInt and in COW_AtomicInt2: a String is
  constructed, \<open>X\<close> is appended, the String is copied (the copy shares the buffer) and
  \<^verbatim>\<open>copy[0]\<close> is read. Indexing unshares the copy. In COW_AtomicInt2 \<^verbatim>\<open>Clone\<close> copies the
  occupied bytes and the read returns \<open>X\<close>; in COW_AtomicInt the cloning constructor of
  StringBuf copies no byte, and the read returns the indeterminate content of a fresh
  array. The two namespaces do not yield the same observable results.
\<close>

theorem COW_AtomicInt2_and_COW_AtomicInt_read_differently:
  "observe COW_AtomicInt 4096 16 [New, App 0 CHR ''X'', Copy 0, Idx 1 0, Len 1]
     = Inr [Char_is Indeterminate, Length_is 1]
   \<and> observe2 [New, App 0 CHR ''X'', Copy 0, Idx 1 0, Len 1]
     = Inr [Char_is (Chr CHR ''X''), Length_is 1]"
proof
  show "observe COW_AtomicInt 4096 16 [New, App 0 CHR ''X'', Copy 0, Idx 1 0, Len 1]
          = Inr [Char_is Indeterminate, Length_is 1]"
    by (simp add: observe_def arena_eval buffer_eval cow_eval)
  show "observe2 [New, App 0 CHR ''X'', Copy 0, Idx 1 0, Len 1]
          = Inr [Char_is (Chr CHR ''X''), Length_is 1]"
    by (simp add: observe2_def arena_eval buffer_eval cow2_eval)
qed


end
